theory Spec2Isabelle
  imports Complex_Main "HOL-Library.Sublist"
begin

section \<open>Data model of the mesh compressor\<close>

text \<open>
  The development follows \<^verbatim>\<open>src/src/compression/MeshCompression.cpp\<close> and, for
  \<^verbatim>\<open>compressAndIntegrate\<close> of the octree compressor,
  \<^verbatim>\<open>src/src/compression/OctreeCompression.cpp\<close>.
  A \<^verbatim>\<open>pcl::PointXYZRGBA\<close> is a pair of a position and a colour; the position type
  \<open>'p\<close> and the colour type \<open>'c\<close> are left open, since the compressor only copies
  points and hands positions to the spatial index. \<^verbatim>\<open>size_t\<close> is \<open>nat\<close> (no vector
  of the program can hold \<open>2 ^ 64\<close> entries, so the additions never wrap), and a
  \<^verbatim>\<open>double\<close> time stamp is a \<open>real\<close>: only assignment and the comparison \<open>>\<close> are
  applied to it.
\<close>

datatype error = SpatialIndexFailure | OutOfRange | UndefinedBehaviour | AssertionFailure

text \<open>
  The members of \<^verbatim>\<open>MeshCompression\<close>. \<^verbatim>\<open>adjacent_polygons_\<close> is a
  \<^verbatim>\<open>std::map<size_t, std::vector<size_t>>\<close>: a partial map, so that a key bound to the
  empty vector differs from an absent key.
\<close>

record ('p, 'c) mesh_store =
  all_vertices :: "('p \<times> 'c) list"
  active_vertices_xyz :: "'p list"
  active_vertices_index :: "nat list"
  vertices_latest_time :: "real list"
  polygons :: "nat list list"
  adjacent_polygons :: "nat \<rightharpoonup> nat list"

text \<open>
  The four output buffers of \<^verbatim>\<open>compressAndIntegrate\<close>. The remapping \<open>'r\<close> is a
  \<^verbatim>\<open>std::unordered_map<size_t, size_t>\<close> for a flat mesh and a \<^verbatim>\<open>VoxbloxIndexMapping\<close>,
  a map from block indices to \<^verbatim>\<open>std::map<size_t, size_t>\<close>, for a mesh of blocks.
\<close>

record ('p, 'c, 'r) outputs =
  new_vertices :: "('p \<times> 'c) list"
  new_triangles :: "nat list list"
  new_indices :: "nat list"
  remapping :: "'r"

text \<open>
  The spatial index is reached through virtual hooks of \<^verbatim>\<open>MeshCompression\<close> whose
  implementations are not among the sources, so they are parameters of the model.
  \<^verbatim>\<open>checkIfVertexUnique(p, &result_idx)\<close> returns \<^verbatim>\<open>true\<close> (\<open>Unique\<close>), or \<^verbatim>\<open>false\<close> with
  a slot in \<^verbatim>\<open>result_idx\<close> (\<open>Seen\<close>), or throws (\<open>QueryFailed\<close>). The structure behind
  the query is rebuilt from the active positions by \<^verbatim>\<open>updateStructure\<close> and
  \<^verbatim>\<open>reInitializeStructure\<close>, so a query is a function of the current position list
  and the point. The update hooks return \<open>False\<close> when they throw.
\<close>

datatype query = QueryFailed | Unique | Seen nat

record 'p hooks =
  checkIfVertexUnique :: "'p list \<Rightarrow> 'p \<Rightarrow> query"
  checkIfVertexTempUnique :: "'p list \<Rightarrow> 'p \<Rightarrow> query"
  updateStructure :: "'p list \<Rightarrow> bool"
  updateTempStructure :: "'p list \<Rightarrow> bool"
  reInitializeStructure :: "'p list \<Rightarrow> bool"

section \<open>Pruning\<close>

text \<open>
  \<^verbatim>\<open>pruneStoredMesh\<close>, lines 399-445. The two length checks only write to the log.
  The loop runs over \<^verbatim>\<open>vertices_latest_time_.size()\<close>; for a slot it keeps it reads
  \<^verbatim>\<open>active_vertices_xyz_->points[i]\<close> and \<^verbatim>\<open>active_vertices_index_[i]\<close> with the
  unchecked \<^verbatim>\<open>operator[]\<close>, which is undefined behaviour past the end and no C++
  exception, so the \<^verbatim>\<open>catch (...)\<close> does not see it. \<^verbatim>\<open>adjacent_polygons_[k]\<close> on the
  map inserts an empty vector under an absent key before it is read.
\<close>

record 'p kept =
  temp_active_vertices :: "'p list"
  temp_vertices_time :: "real list"
  temp_vertices_index :: "nat list"
  temp_adjacent_polygons :: "nat \<rightharpoonup> nat list"
  touched_adjacent_polygons :: "nat \<rightharpoonup> nat list"

definition map_subscript :: "('k \<rightharpoonup> 'v list) \<Rightarrow> 'k \<Rightarrow> 'v list" where
  "map_subscript m k = (case m k of None \<Rightarrow> [] | Some xs \<Rightarrow> xs)"

definition map_touch :: "('k \<rightharpoonup> 'v list) \<Rightarrow> 'k \<Rightarrow> ('k \<rightharpoonup> 'v list)" where
  "map_touch m k = (case m k of None \<Rightarrow> m(k \<mapsto> []) | Some xs \<Rightarrow> m)"

fun prune_loop ::
  "('p, 'c) mesh_store \<Rightarrow> real \<Rightarrow> nat list \<Rightarrow> 'p kept \<Rightarrow> error + 'p kept" where
  "prune_loop s earliest_time_sec [] k = Inr k"
| "prune_loop s earliest_time_sec (i # rest) k =
     (if vertices_latest_time s ! i > earliest_time_sec then
        (if i < length (active_vertices_xyz s) \<and> i < length (active_vertices_index s) then
           prune_loop s earliest_time_sec rest
             (k\<lparr>temp_active_vertices := temp_active_vertices k @ [active_vertices_xyz s ! i],
                temp_vertices_time := temp_vertices_time k @ [vertices_latest_time s ! i],
                temp_vertices_index := temp_vertices_index k @ [active_vertices_index s ! i],
                temp_adjacent_polygons :=
                  (temp_adjacent_polygons k)(active_vertices_index s ! i \<mapsto>
                     map_subscript (touched_adjacent_polygons k) (active_vertices_index s ! i)),
                touched_adjacent_polygons :=
                  map_touch (touched_adjacent_polygons k) (active_vertices_index s ! i)\<rparr>)
         else Inl UndefinedBehaviour)
      else prune_loop s earliest_time_sec rest k)"

definition length_warnings :: "('p, 'c) mesh_store \<Rightarrow> string list" where
  "length_warnings s =
     (if length (vertices_latest_time s) \<noteq> length (active_vertices_xyz s)
      then [''Length of book-keeped vertex time does not match number of active points. '']
      else []) @
     (if length (active_vertices_index s) \<noteq> length (active_vertices_xyz s)
      then [''Length of book-keeped vertex indices does not match number of active points. '']
      else [])"

definition pruneStoredMesh ::
  "'p hooks \<Rightarrow> ('p, 'c) mesh_store \<Rightarrow> real \<Rightarrow> string list \<times> (error + ('p, 'c) mesh_store)" where
  "pruneStoredMesh h s earliest_time_sec =
     (if length (active_vertices_xyz s) = 0 then ([], Inr s)
      else
        case prune_loop s earliest_time_sec [0..<length (vertices_latest_time s)]
               \<lparr>temp_active_vertices = [], temp_vertices_time = [], temp_vertices_index = [],
                temp_adjacent_polygons = Map.empty,
                touched_adjacent_polygons = adjacent_polygons s\<rparr> of
          Inl e \<Rightarrow> (length_warnings s, Inl e)
        | Inr k \<Rightarrow>
            if length (temp_active_vertices k) < length (active_vertices_xyz s) then
              (length_warnings s @
                 (if reInitializeStructure h (temp_active_vertices k) then []
                  else [''MeshCompression: Failed to prune active mesh. '']),
               Inr (s\<lparr>active_vertices_xyz := temp_active_vertices k,
                      vertices_latest_time := temp_vertices_time k,
                      active_vertices_index := temp_vertices_index k,
                      adjacent_polygons := temp_adjacent_polygons k\<rparr>))
            else
              (length_warnings s,
               Inr (s\<lparr>adjacent_polygons := touched_adjacent_polygons k\<rparr>)))"

section \<open>Compression of a flat mesh\<close>

text \<open>
  The locals of \<^verbatim>\<open>compressAndIntegrate\<close> together with the members and output buffers
  it mutates in place. When the call is left by an exception, the members and the
  buffers stay as they are at that moment.
\<close>

record ('p, 'c, 'r) work =
  store :: "('p, 'c) mesh_store"
  out :: "('p, 'c, 'r) outputs"
  reindex :: "nat \<rightharpoonup> nat"
  temp_reindex :: "nat list"
  potential_new_vertices :: "nat list"
  potential_new_vertices_check :: "bool list"
  temp_new_vertices :: "'p list"

definition push_if_absent :: "nat list \<Rightarrow> nat \<Rightarrow> nat list" where
  "push_if_absent xs v = (if v \<in> set xs then xs else xs @ [v])"

text \<open>
  One iteration of the loop of lines 72-105 for input vertex \<open>i\<close>. \<open>N\<close> is
  \<^verbatim>\<open>num_original_vertices\<close>. The subscripts \<^verbatim>\<open>active_vertices_index_[result_idx]\<close> and
  \<^verbatim>\<open>vertices_latest_time_[result_idx]\<close> are unchecked.
\<close>

definition classify_vertex ::
  "'p hooks \<Rightarrow> real \<Rightarrow> nat \<Rightarrow> nat \<Rightarrow> ('p \<times> 'c) \<Rightarrow> ('p, 'c, nat \<rightharpoonup> nat) work
     \<Rightarrow> error + ('p, 'c, nat \<rightharpoonup> nat) work" where
  "classify_vertex h stamp_in_sec N i p w =
     (case checkIfVertexUnique h (active_vertices_xyz (store w)) (fst p) of
        QueryFailed \<Rightarrow> Inl SpatialIndexFailure
      | Unique \<Rightarrow>
          (case checkIfVertexTempUnique h (temp_new_vertices w) (fst p) of
             QueryFailed \<Rightarrow> Inl SpatialIndexFailure
           | Unique \<Rightarrow>
               if updateTempStructure h (temp_new_vertices w @ [fst p]) then
                 Inr (w\<lparr>temp_new_vertices := temp_new_vertices w @ [fst p],
                        potential_new_vertices := potential_new_vertices w @ [i],
                        potential_new_vertices_check := potential_new_vertices_check w @ [False],
                        temp_reindex := temp_reindex w @ [N + length (temp_new_vertices w)]\<rparr>)
               else Inl SpatialIndexFailure
           | Seen result_idx \<Rightarrow>
               Inr (w\<lparr>temp_reindex := temp_reindex w @ [N + result_idx]\<rparr>))
      | Seen result_idx \<Rightarrow>
          if result_idx < length (active_vertices_index (store w)) \<and>
             result_idx < length (vertices_latest_time (store w))
          then
            Inr (w\<lparr>reindex := (reindex w)(i \<mapsto> active_vertices_index (store w) ! result_idx),
                   temp_reindex := temp_reindex w @ [active_vertices_index (store w) ! result_idx],
                   out := (out w)\<lparr>new_indices :=
                            push_if_absent (new_indices (out w))
                              (active_vertices_index (store w) ! result_idx)\<rparr>,
                   store := (store w)\<lparr>vertices_latest_time :=
                              (vertices_latest_time (store w))[result_idx := stamp_in_sec]\<rparr>\<rparr>)
          else Inl UndefinedBehaviour)"

fun classify_vertices ::
  "'p hooks \<Rightarrow> real \<Rightarrow> nat \<Rightarrow> nat \<Rightarrow> ('p \<times> 'c) list \<Rightarrow> ('p, 'c, nat \<rightharpoonup> nat) work
     \<Rightarrow> (error \<times> ('p, 'c, nat \<rightharpoonup> nat) work) + ('p, 'c, nat \<rightharpoonup> nat) work" where
  "classify_vertices h stamp_in_sec N i [] w = Inr w"
| "classify_vertices h stamp_in_sec N i (p # ps) w =
     (case classify_vertex h stamp_in_sec N i p w of
        Inl e \<Rightarrow> Inl (e, w)
      | Inr w' \<Rightarrow> classify_vertices h stamp_in_sec N (Suc i) ps w')"

text \<open>
  The first pass over the faces, lines 107-128. \<^verbatim>\<open>temp_reindex.at(i)\<close> throws
  \<^verbatim>\<open>std::out_of_range\<close>; \<^verbatim>\<open>potential_new_vertices_check[i - N]\<close> is unchecked.
\<close>

fun reindex_at :: "nat list \<Rightarrow> nat list \<Rightarrow> error + nat list" where
  "reindex_at tr [] = Inr []"
| "reindex_at tr (i # rest) =
     (if i < length tr then
        (case reindex_at tr rest of Inl e \<Rightarrow> Inl e | Inr vs \<Rightarrow> Inr (tr ! i # vs))
      else Inl OutOfRange)"

definition degenerate :: "nat list \<Rightarrow> bool" where
  "degenerate vs = (length vs < 3 \<or> vs ! 0 = vs ! 1 \<or> vs ! 1 = vs ! 2 \<or> vs ! 2 = vs ! 0)"

fun pass_check :: "nat \<Rightarrow> nat list \<Rightarrow> bool list \<Rightarrow> error + bool list" where
  "pass_check N [] chk = Inr chk"
| "pass_check N (i # rest) chk =
     (if i \<ge> N then
        (if i - N < length chk then pass_check N rest (chk[i - N := True])
         else Inl UndefinedBehaviour)
      else pass_check N rest chk)"

definition check_surface :: "nat \<Rightarrow> nat list \<Rightarrow> nat list \<Rightarrow> bool list \<Rightarrow> error + bool list" where
  "check_surface N tr s chk =
     (case reindex_at tr s of
        Inl e \<Rightarrow> Inl e
      | Inr reindex_s \<Rightarrow>
          if \<not> list_ex (\<lambda>v. v \<ge> N) reindex_s then Inr chk
          else if degenerate reindex_s then Inr chk
          else pass_check N reindex_s chk)"

fun check_surfaces :: "nat \<Rightarrow> nat list \<Rightarrow> nat list list \<Rightarrow> bool list \<Rightarrow> error + bool list" where
  "check_surfaces N tr [] chk = Inr chk"
| "check_surfaces N tr (s # rest) chk =
     (case check_surface N tr s chk of
        Inl e \<Rightarrow> Inl e
      | Inr chk' \<Rightarrow> check_surfaces N tr rest chk')"

text \<open>
  Committing the provisional vertices, lines 131-160. \<^verbatim>\<open>insert\<close> on the remapping keeps
  an entry that is already there. The inner loop compares \<^verbatim>\<open>temp_reindex[i]\<close>, where
  \<open>i\<close> is the position in \<^verbatim>\<open>potential_new_vertices\<close>, with \<^verbatim>\<open>temp_reindex[m]\<close>.
  Inside \<^verbatim>\<open>compressAndIntegrate\<close> the subscripts \<^verbatim>\<open>potential_new_vertices_check[i]\<close>,
  \<^verbatim>\<open>temp_reindex[i]\<close> and \<^verbatim>\<open>input_vertices.at(input_idx)\<close> are in range (lemma
  \<open>commit_subscripts_in_range\<close> below). \<^verbatim>\<open>updateStructure\<close> is called after the position
  has been pushed to \<^verbatim>\<open>active_vertices_xyz_\<close>.
\<close>

definition map_insert :: "('k \<rightharpoonup> 'v) \<Rightarrow> 'k \<Rightarrow> 'v \<Rightarrow> ('k \<rightharpoonup> 'v)" where
  "map_insert m k v = (case m k of None \<Rightarrow> m(k \<mapsto> v) | Some u \<Rightarrow> m)"

definition insert_converged ::
  "nat list \<Rightarrow> nat \<Rightarrow> nat \<Rightarrow> nat \<Rightarrow> (nat \<rightharpoonup> nat) \<Rightarrow> (nat \<rightharpoonup> nat)" where
  "insert_converged tr input_idx i v rm =
     fold (\<lambda>m rm'. if input_idx \<noteq> m \<and> tr ! i = tr ! m then map_insert rm' m v else rm')
       [0..<length tr] rm"

definition commit_vertex ::
  "'p hooks \<Rightarrow> real \<Rightarrow> ('p \<times> 'c) list \<Rightarrow> nat \<Rightarrow> ('p, 'c, nat \<rightharpoonup> nat) work
     \<Rightarrow> (error \<times> ('p, 'c, nat \<rightharpoonup> nat) work) + ('p, 'c, nat \<rightharpoonup> nat) work" where
  "commit_vertex h stamp_in_sec input_vertices i w =
     (if potential_new_vertices_check w ! i then
        (let input_idx = potential_new_vertices w ! i;
             p = input_vertices ! input_idx;
             s1 = (store w)\<lparr>active_vertices_xyz := active_vertices_xyz (store w) @ [fst p]\<rparr>
         in if updateStructure h (active_vertices_xyz s1) then
              (let v = length (all_vertices s1);
                   s2 = s1\<lparr>all_vertices := all_vertices s1 @ [p],
                           active_vertices_index := active_vertices_index s1 @ [v],
                           vertices_latest_time := vertices_latest_time s1 @ [stamp_in_sec]\<rparr>
               in Inr (w\<lparr>store := s2,
                         reindex := (reindex w)(input_idx \<mapsto> v),
                         out := (out w)\<lparr>
                           remapping :=
                             insert_converged (temp_reindex w) input_idx i v
                               (map_insert (remapping (out w)) input_idx v),
                           new_indices := new_indices (out w) @ [v],
                           new_vertices := new_vertices (out w) @ [p]\<rparr>\<rparr>))
            else Inl (SpatialIndexFailure, w\<lparr>store := s1\<rparr>))
      else Inr w)"

fun commit_vertices ::
  "'p hooks \<Rightarrow> real \<Rightarrow> ('p \<times> 'c) list \<Rightarrow> nat list \<Rightarrow> ('p, 'c, nat \<rightharpoonup> nat) work
     \<Rightarrow> (error \<times> ('p, 'c, nat \<rightharpoonup> nat) work) + ('p, 'c, nat \<rightharpoonup> nat) work" where
  "commit_vertices h stamp_in_sec input_vertices [] w = Inr w"
| "commit_vertices h stamp_in_sec input_vertices (i # rest) w =
     (case commit_vertex h stamp_in_sec input_vertices i w of
        Inl ew \<Rightarrow> Inl ew
      | Inr w' \<Rightarrow> commit_vertices h stamp_in_sec input_vertices rest w')"

text \<open>
  Modelled from the spec: \<^verbatim>\<open>SurfaceExists\<close> of \<^verbatim>\<open>utils/CommonFunctions\<close>, which is not
  among the sources. Section 4.3: true iff some polygon already adjacent to any vertex
  of \<open>t\<close> equals \<open>t\<close> as an unordered triple. An adjacency entry that is not an index
  of \<open>surfaces\<close> names no polygon.
\<close>

definition SurfaceExists :: "nat list \<Rightarrow> (nat \<rightharpoonup> nat list) \<Rightarrow> nat list list \<Rightarrow> bool" where
  "SurfaceExists new_surface adjacent_surfaces surfaces =
     list_ex (\<lambda>v. list_ex (\<lambda>j. j < length surfaces \<and> set (surfaces ! j) = set new_surface)
                       (map_subscript adjacent_surfaces v))
       new_surface"

text \<open>
  The second pass over the faces, lines 164-197: the same statements close the block
  variant (lines 362-395). A vertex without a \<^verbatim>\<open>reindex\<close> entry is left out of the face.
\<close>

fun reindex_found :: "(nat \<rightharpoonup> nat) \<Rightarrow> nat list \<Rightarrow> nat list" where
  "reindex_found rx [] = []"
| "reindex_found rx (idx # rest) =
     (case rx idx of None \<Rightarrow> reindex_found rx rest | Some v \<Rightarrow> v # reindex_found rx rest)"

definition push_adjacent :: "nat \<Rightarrow> (nat \<rightharpoonup> nat list) \<Rightarrow> nat \<Rightarrow> (nat \<rightharpoonup> nat list)" where
  "push_adjacent k adj v = adj(v \<mapsto> map_subscript adj v @ [k])"

definition add_surface ::
  "nat \<Rightarrow> nat list \<Rightarrow> ('p, 'c, 'r, 'z) work_scheme \<Rightarrow> ('p, 'c, 'r, 'z) work_scheme" where
  "add_surface N s w =
     (let reindex_s = reindex_found (reindex w) s;
          new_surface = list_ex (\<lambda>v. v \<ge> N) reindex_s
      in if length reindex_s < 3 then w
         else if reindex_s ! 0 = reindex_s ! 1 \<or> reindex_s ! 1 = reindex_s ! 2 \<or>
                 reindex_s ! 2 = reindex_s ! 0 then w
         else if (if \<not> new_surface
                  then \<not> SurfaceExists reindex_s (adjacent_polygons (store w)) (polygons (store w))
                  else new_surface)
         then w\<lparr>store := (store w)\<lparr>
                  polygons := polygons (store w) @ [reindex_s],
                  adjacent_polygons :=
                    foldl (push_adjacent (length (polygons (store w))))
                      (adjacent_polygons (store w)) reindex_s\<rparr>,
                out := (out w)\<lparr>new_triangles := new_triangles (out w) @ [reindex_s]\<rparr>\<rparr>
         else w)"

definition add_surfaces ::
  "nat \<Rightarrow> nat list list \<Rightarrow> ('p, 'c, 'r, 'z) work_scheme \<Rightarrow> ('p, 'c, 'r, 'z) work_scheme" where
  "add_surfaces N input_surfaces w = foldl (\<lambda>w' s. add_surface N s w') w input_surfaces"

text \<open>
  \<^verbatim>\<open>compressAndIntegrate(input_vertices, input_surfaces, ...)\<close>, lines 37-199. The result
  is the exception that left the call, if any, with the members and the output buffers
  as the call leaves them. The overload for a \<^verbatim>\<open>pcl::PolygonMesh\<close> (lines 16-35) only
  unpacks the mesh and calls this one.
\<close>

definition compressAndIntegrate ::
  "'p hooks \<Rightarrow> ('p, 'c) mesh_store \<Rightarrow> ('p \<times> 'c) list \<Rightarrow> nat list list
     \<Rightarrow> ('p, 'c, nat \<rightharpoonup> nat) outputs \<Rightarrow> real
     \<Rightarrow> error option \<times> ('p, 'c) mesh_store \<times> ('p, 'c, nat \<rightharpoonup> nat) outputs" where
  "compressAndIntegrate h s input_vertices input_surfaces buffers stamp_in_sec =
     (if length input_vertices < 3 \<or> length input_surfaces = 0 then (None, s, buffers)
      else
        let num_original_vertices = length (all_vertices s) in
        case classify_vertices h stamp_in_sec num_original_vertices 0 input_vertices
               \<lparr>store = s, out = buffers, reindex = Map.empty, temp_reindex = [],
                potential_new_vertices = [], potential_new_vertices_check = [],
                temp_new_vertices = []\<rparr> of
          Inl (e, w) \<Rightarrow> (Some e, store w, out w)
        | Inr w1 \<Rightarrow>
            (case check_surfaces num_original_vertices (temp_reindex w1) input_surfaces
                    (potential_new_vertices_check w1) of
               Inl e \<Rightarrow> (Some e, store w1, out w1)
             | Inr chk \<Rightarrow>
                 (case commit_vertices h stamp_in_sec input_vertices
                         [0..<length (potential_new_vertices w1)]
                         (w1\<lparr>potential_new_vertices_check := chk,
                             out := (out w1)\<lparr>remapping := reindex w1\<rparr>\<rparr>) of
                    Inl (e, w) \<Rightarrow> (Some e, store w, out w)
                  | Inr w3 \<Rightarrow>
                      (let w4 = add_surfaces num_original_vertices input_surfaces w3
                       in (None, store w4, out w4)))))"

section \<open>Compression of a mesh of blocks\<close>

text \<open>
  A \<^verbatim>\<open>voxblox_msgs::MeshBlock\<close>: its index and its vertices. \<^verbatim>\<open>ExtractPoint\<close> of
  \<^verbatim>\<open>utils/VoxbloxUtils\<close> is not among the sources; \<open>block_points\<close> holds the points it
  returns for \<^verbatim>\<open>i = 0 .. mesh_block.x.size() - 1\<close>.
\<close>

record ('b, 'p, 'c) mesh_block =
  block_index :: "'b"
  block_points :: "('p \<times> 'c) list"

record ('p, 'c, 'b) block_work = "('p, 'c, 'b \<rightharpoonup> (nat \<rightharpoonup> nat)) work" +
  input_surfaces :: "nat list list"
  count :: nat
  count_to_block :: "nat \<rightharpoonup> ('b \<times> nat)"
  all_parsed_points :: "('p \<times> 'c) list"
  converged_vertices :: "nat \<rightharpoonup> nat list"

text \<open>
  The classification of one vertex of a block, lines 253-291. A reobservation writes
  \<^verbatim>\<open>temp_reindex\<close>, \<^verbatim>\<open>new_indices\<close> and the time stamp, and no \<^verbatim>\<open>reindex\<close> entry.
  \<^verbatim>\<open>potential_new_vertices[result_idx]\<close> is unchecked.
\<close>

definition classify_block_vertex ::
  "'p hooks \<Rightarrow> real \<Rightarrow> nat \<Rightarrow> 'b \<Rightarrow> nat \<Rightarrow> ('p \<times> 'c) \<Rightarrow> ('p, 'c, 'b) block_work
     \<Rightarrow> error + ('p, 'c, 'b) block_work" where
  "classify_block_vertex h stamp_in_sec N blk i p w0 =
     (let w = w0\<lparr>count_to_block := (count_to_block w0)(count w0 \<mapsto> (blk, i)),
                 all_parsed_points := all_parsed_points w0 @ [p]\<rparr>
      in case checkIfVertexUnique h (active_vertices_xyz (store w)) (fst p) of
        QueryFailed \<Rightarrow> Inl SpatialIndexFailure
      | Unique \<Rightarrow>
          (case checkIfVertexTempUnique h (temp_new_vertices w) (fst p) of
             QueryFailed \<Rightarrow> Inl SpatialIndexFailure
           | Unique \<Rightarrow>
               if updateTempStructure h (temp_new_vertices w @ [fst p]) then
                 Inr (w\<lparr>temp_new_vertices := temp_new_vertices w @ [fst p],
                        potential_new_vertices := potential_new_vertices w @ [count w],
                        potential_new_vertices_check := potential_new_vertices_check w @ [False],
                        temp_reindex := temp_reindex w @ [N + length (temp_new_vertices w)],
                        converged_vertices := map_insert (converged_vertices w) (count w) []\<rparr>)
               else Inl SpatialIndexFailure
           | Seen result_idx \<Rightarrow>
               if result_idx < length (potential_new_vertices w) then
                 Inr (w\<lparr>temp_reindex := temp_reindex w @ [N + result_idx],
                        converged_vertices :=
                          (converged_vertices w)(potential_new_vertices w ! result_idx \<mapsto>
                             map_subscript (converged_vertices w)
                               (potential_new_vertices w ! result_idx) @ [count w])\<rparr>)
               else Inl UndefinedBehaviour)
      | Seen result_idx \<Rightarrow>
          if result_idx < length (active_vertices_index (store w)) \<and>
             result_idx < length (vertices_latest_time (store w))
          then
            Inr (w\<lparr>temp_reindex := temp_reindex w @ [active_vertices_index (store w) ! result_idx],
                   out := (out w)\<lparr>new_indices :=
                            push_if_absent (new_indices (out w))
                              (active_vertices_index (store w) ! result_idx)\<rparr>,
                   store := (store w)\<lparr>vertices_latest_time :=
                              (vertices_latest_time (store w))[result_idx := stamp_in_sec]\<rparr>\<rparr>)
          else Inl UndefinedBehaviour)"

text \<open>
  Every third vertex of a block closes a face, lines 293-325: the face is recorded in
  \<^verbatim>\<open>input_surfaces\<close> and, when it has a provisional vertex and is not degenerate,
  passes the check of its provisional vertices.
\<close>

definition close_surface ::
  "nat \<Rightarrow> nat \<Rightarrow> ('p, 'c, 'b) block_work \<Rightarrow> error + ('p, 'c, 'b) block_work" where
  "close_surface N i w =
     (if i mod 3 = 2 then
        (let orig_s = [count w - 2, count w - 1, count w] in
         case reindex_at (temp_reindex w) orig_s of
           Inl e \<Rightarrow> Inl e
         | Inr reindex_s \<Rightarrow>
             (let w' = w\<lparr>input_surfaces := input_surfaces w @ [orig_s]\<rparr> in
              if \<not> list_ex (\<lambda>v. v \<ge> N) reindex_s then Inr w'
              else if degenerate reindex_s then Inr w'
              else (case pass_check N reindex_s (potential_new_vertices_check w') of
                      Inl e \<Rightarrow> Inl e
                    | Inr chk \<Rightarrow> Inr (w'\<lparr>potential_new_vertices_check := chk\<rparr>))))
      else Inr w)"

fun parse_block_vertices ::
  "'p hooks \<Rightarrow> real \<Rightarrow> nat \<Rightarrow> 'b \<Rightarrow> nat \<Rightarrow> ('p \<times> 'c) list \<Rightarrow> ('p, 'c, 'b) block_work
     \<Rightarrow> (error \<times> ('p, 'c, 'b) block_work) + ('p, 'c, 'b) block_work" where
  "parse_block_vertices h stamp_in_sec N blk i [] w = Inr w"
| "parse_block_vertices h stamp_in_sec N blk i (p # ps) w =
     (case classify_block_vertex h stamp_in_sec N blk i p w of
        Inl e \<Rightarrow> Inl (e, w)
      | Inr w1 \<Rightarrow>
          (case close_surface N i w1 of
             Inl e \<Rightarrow> Inl (e, w1)
           | Inr w2 \<Rightarrow>
               parse_block_vertices h stamp_in_sec N blk (Suc i) ps (w2\<lparr>count := Suc (count w2)\<rparr>)))"

text \<open>
  The loop over the blocks, lines 241-328. The \<^verbatim>\<open>assert\<close> on the number of vertices
  aborts the call; the block index gets an empty inner map unless it has a map already.
\<close>

fun parse_blocks ::
  "'p hooks \<Rightarrow> real \<Rightarrow> nat \<Rightarrow> ('b, 'p, 'c) mesh_block list \<Rightarrow> ('p, 'c, 'b) block_work
     \<Rightarrow> (error \<times> ('p, 'c, 'b) block_work) + ('p, 'c, 'b) block_work" where
  "parse_blocks h stamp_in_sec N [] w = Inr w"
| "parse_blocks h stamp_in_sec N (mb # rest) w =
     (if length (block_points mb) mod 3 \<noteq> 0 then Inl (AssertionFailure, w)
      else
        case parse_block_vertices h stamp_in_sec N (block_index mb) 0 (block_points mb)
               (w\<lparr>out := (out w)\<lparr>remapping :=
                      map_insert (remapping (out w)) (block_index mb) Map.empty\<rparr>\<rparr>) of
          Inl ew \<Rightarrow> Inl ew
        | Inr w' \<Rightarrow> parse_blocks h stamp_in_sec N rest w')"

text \<open>
  Committing the provisional vertices of a mesh of blocks, lines 330-358.
  \<^verbatim>\<open>remapping->at(block)\<close> throws \<^verbatim>\<open>std::out_of_range\<close> for a block without an inner
  map, and \<^verbatim>\<open>count_to_block[k]\<close> of a vertex that was never parsed is a
  default-constructed (uninitialised) block index. The \<^verbatim>\<open>assert\<close> on the converged
  vertices aborts the call. Inside \<^verbatim>\<open>compressAndIntegrate\<close> the subscripts
  \<^verbatim>\<open>potential_new_vertices_check[i]\<close>, \<^verbatim>\<open>all_parsed_points.points[input_idx]\<close> and
  \<^verbatim>\<open>temp_reindex[input_idx]\<close> are in range (lemma \<open>commit_block_subscripts_in_range\<close>
  below).
\<close>

definition block_insert ::
  "('b \<rightharpoonup> (nat \<rightharpoonup> nat)) \<Rightarrow> ('b \<times> nat) option \<Rightarrow> nat \<Rightarrow> error + ('b \<rightharpoonup> (nat \<rightharpoonup> nat))" where
  "block_insert rm cb v =
     (case cb of
        None \<Rightarrow> Inl UndefinedBehaviour
      | Some (blk, j) \<Rightarrow>
          (case rm blk of
             None \<Rightarrow> Inl OutOfRange
           | Some inner \<Rightarrow> Inr (rm(blk \<mapsto> map_insert inner j v))))"

fun commit_converged ::
  "nat list \<Rightarrow> (nat \<rightharpoonup> ('b \<times> nat)) \<Rightarrow> nat \<Rightarrow> nat \<Rightarrow> nat list
     \<Rightarrow> (nat \<rightharpoonup> nat) \<times> ('b \<rightharpoonup> (nat \<rightharpoonup> nat))
     \<Rightarrow> error + ((nat \<rightharpoonup> nat) \<times> ('b \<rightharpoonup> (nat \<rightharpoonup> nat)))" where
  "commit_converged tr c2b input_idx v [] (rx, rm) = Inr (rx, rm)"
| "commit_converged tr c2b input_idx v (m # rest) (rx, rm) =
     (if tr ! input_idx \<noteq> tr ! m then Inl AssertionFailure
      else
        case block_insert rm (c2b m) v of
          Inl e \<Rightarrow> Inl e
        | Inr rm' \<Rightarrow> commit_converged tr c2b input_idx v rest (rx(m \<mapsto> v), rm'))"

definition commit_block_vertex ::
  "'p hooks \<Rightarrow> real \<Rightarrow> nat \<Rightarrow> ('p, 'c, 'b) block_work
     \<Rightarrow> (error \<times> ('p, 'c, 'b) block_work) + ('p, 'c, 'b) block_work" where
  "commit_block_vertex h stamp_in_sec i w =
     (if potential_new_vertices_check w ! i then
        (let input_idx = potential_new_vertices w ! i;
             p = all_parsed_points w ! input_idx;
             s1 = (store w)\<lparr>active_vertices_xyz := active_vertices_xyz (store w) @ [fst p]\<rparr>
         in if updateStructure h (active_vertices_xyz s1) then
              (let v = length (all_vertices s1);
                   s2 = s1\<lparr>all_vertices := all_vertices s1 @ [p],
                           active_vertices_index := active_vertices_index s1 @ [v],
                           vertices_latest_time := vertices_latest_time s1 @ [stamp_in_sec]\<rparr>;
                   w2 = w\<lparr>store := s2, reindex := (reindex w)(input_idx \<mapsto> v)\<rparr>
               in case block_insert (remapping (out w)) (count_to_block w input_idx) v of
                    Inl e \<Rightarrow> Inl (e, w2)
                  | Inr rm \<Rightarrow>
                      (case commit_converged (temp_reindex w) (count_to_block w) input_idx v
                              (map_subscript (converged_vertices w) input_idx) (reindex w2, rm) of
                         Inl e \<Rightarrow> Inl (e, w2)
                       | Inr (rx', rm') \<Rightarrow>
                           Inr (w2\<lparr>reindex := rx',
                                   converged_vertices :=
                                     map_touch (converged_vertices w) input_idx,
                                   out := (out w)\<lparr>remapping := rm',
                                            new_indices := new_indices (out w) @ [v],
                                            new_vertices := new_vertices (out w) @ [p]\<rparr>\<rparr>)))
            else Inl (SpatialIndexFailure, w\<lparr>store := s1\<rparr>))
      else Inr w)"

fun commit_block_vertices ::
  "'p hooks \<Rightarrow> real \<Rightarrow> nat list \<Rightarrow> ('p, 'c, 'b) block_work
     \<Rightarrow> (error \<times> ('p, 'c, 'b) block_work) + ('p, 'c, 'b) block_work" where
  "commit_block_vertices h stamp_in_sec [] w = Inr w"
| "commit_block_vertices h stamp_in_sec (i # rest) w =
     (case commit_block_vertex h stamp_in_sec i w of
        Inl ew \<Rightarrow> Inl ew
      | Inr w' \<Rightarrow> commit_block_vertices h stamp_in_sec rest w')"

text \<open>\<^verbatim>\<open>compressAndIntegrate(const voxblox_msgs::Mesh& mesh, ...)\<close>, lines 201-397.\<close>

definition compressAndIntegrate_blocks ::
  "'p hooks \<Rightarrow> ('p, 'c) mesh_store \<Rightarrow> ('b, 'p, 'c) mesh_block list
     \<Rightarrow> ('p, 'c, 'b \<rightharpoonup> (nat \<rightharpoonup> nat)) outputs \<Rightarrow> real
     \<Rightarrow> error option \<times> ('p, 'c) mesh_store \<times> ('p, 'c, 'b \<rightharpoonup> (nat \<rightharpoonup> nat)) outputs" where
  "compressAndIntegrate_blocks h s mesh_blocks buffers stamp_in_sec =
     (let num_original_vertices = length (all_vertices s) in
      case parse_blocks h stamp_in_sec num_original_vertices mesh_blocks
             \<lparr>store = s, out = buffers, reindex = Map.empty, temp_reindex = [],
              potential_new_vertices = [], potential_new_vertices_check = [],
              temp_new_vertices = [], input_surfaces = [], count = 0,
              count_to_block = Map.empty, all_parsed_points = [],
              converged_vertices = Map.empty\<rparr> of
        Inl (e, w) \<Rightarrow> (Some e, store w, out w)
      | Inr w1 \<Rightarrow>
          (case commit_block_vertices h stamp_in_sec
                  [0..<length (potential_new_vertices w1)] w1 of
             Inl (e, w) \<Rightarrow> (Some e, store w, out w)
           | Inr w2 \<Rightarrow>
               (let w3 = add_surfaces num_original_vertices (input_surfaces w2) w2
                in (None, store w3, out w3))))"

section \<open>Compression through an octree\<close>

text \<open>
  \<^verbatim>\<open>OctreeCompression::compressAndIntegrate\<close>, lines 46-215 of
  \<^verbatim>\<open>OctreeCompression.cpp\<close>. A point is its three coordinates and a colour. The members
  of \<^verbatim>\<open>OctreeCompression\<close> carry the names of the members of \<^verbatim>\<open>MeshCompression\<close>; here
  they have the suffix \<open>_oc\<close> where the name is taken. The active cloud holds whole points,
  and the octree is a member next to it.
\<close>

type_synonym 'c point = "(real \<times> real \<times> real) \<times> 'c"

record ('c, 'o) octree_store =
  all_vertices_oc :: "'c point list"
  active_vertices :: "'c point list"
  octree :: "'o"
  active_vertices_index_oc :: "nat list"
  vertices_latest_time_oc :: "real list"
  polygons_oc :: "nat list list"
  adjacent_polygons_oc :: "nat \<rightharpoonup> nat list"

text \<open>
  \<^verbatim>\<open>pcl::octree::OctreePointCloudSearch\<close> is a library class outside the sources: the
  state \<open>'o\<close> of an octree and the four calls the compressor makes are parameters. A
  query that throws gives \<open>None\<close>. \<^verbatim>\<open>addPointFromCloud(i, nullptr)\<close> reads point \<open>i\<close> of
  the cloud the octree is attached to; it gives the octree as the call leaves it, and
  \<open>False\<close> when it throws. \<^verbatim>\<open>approxNearestSearch\<close> gives \<^verbatim>\<open>result_idx\<close>.
\<close>

record ('c, 'o) pcl_octree =
  getBoundingBox :: "'o \<Rightarrow> ((real \<times> real \<times> real) \<times> (real \<times> real \<times> real)) option"
  isVoxelOccupiedAtPoint :: "'o \<Rightarrow> 'c point \<Rightarrow> bool option"
  addPointFromCloud :: "'o \<Rightarrow> 'c point list \<Rightarrow> nat \<Rightarrow> bool \<times> 'o"
  approxNearestSearch :: "'o \<Rightarrow> 'c point \<Rightarrow> nat option"

text \<open>
  The locals of the first pass, lines 69-81: copies of the active cloud, of the vertex
  list, of the octree and of the active-to-all array, and what \<^verbatim>\<open>ROS_ERROR\<close> has
  written.
\<close>

record ('c, 'o) first_pass =
  temp_active_vertices_oc :: "'c point list"
  temp_all_vertices :: "'c point list"
  temp_octree :: "'o"
  temp_active_vertices_index :: "nat list"
  temp_new_indices :: "nat list"
  temp_have_adjacent_polygons :: "nat \<rightharpoonup> bool"
  remapping_oc :: "nat \<rightharpoonup> nat"
  ros_error :: "string list"

text \<open>
  One iteration of the first pass, lines 84-128. Every statement is inside
  \<^verbatim>\<open>try { ... } catch (...)\<close>: an exception of the temporary octree is logged and the
  loop goes on with the next vertex, the locals being as the exception left them (a
  point whose insertion throws has been pushed to the temporary cloud already).
  \<^verbatim>\<open>temp_active_vertices_index[result_idx]\<close> is unchecked, which is undefined behaviour
  past the end and no exception. \<^verbatim>\<open>result_idx\<close> is an \<^verbatim>\<open>int\<close>: a negative one is past the
  end as a subscript, so a \<open>nat\<close> past the end stands for it.
\<close>

definition is_in_box ::
  "(real \<times> real \<times> real) \<times> (real \<times> real \<times> real) \<Rightarrow> real \<times> real \<times> real \<Rightarrow> bool" where
  "is_in_box box p =
     (case box of ((min_x, min_y, min_z), (max_x, max_y, max_z)) \<Rightarrow>
        case p of (x, y, z) \<Rightarrow>
          (x \<ge> min_x \<and> x \<le> max_x) \<and> (y \<ge> min_y \<and> y \<le> max_y) \<and> (z \<ge> min_z \<and> z \<le> max_z))"

definition insert_caught :: "('c, 'o) first_pass \<Rightarrow> ('c, 'o) first_pass" where
  "insert_caught f = f\<lparr>ros_error := ros_error f @ [''OctreeCompression: Failed to insert mesh vertex. '']\<rparr>"

definition first_pass_vertex ::
  "('c, 'o) pcl_octree \<Rightarrow> nat \<Rightarrow> nat \<Rightarrow> 'c point \<Rightarrow> ('c, 'o) first_pass
     \<Rightarrow> error + ('c, 'o) first_pass" where
  "first_pass_vertex pcl original_size_active i p f =
     (case getBoundingBox pcl (temp_octree f) of
        None \<Rightarrow> Inr (insert_caught f)
      | Some box \<Rightarrow>
          (case (if is_in_box box (fst p) then isVoxelOccupiedAtPoint pcl (temp_octree f) p
                 else Some False) of
             None \<Rightarrow> Inr (insert_caught f)
           | Some occupied \<Rightarrow>
               if \<not> occupied then
                 (let f1 = f\<lparr>temp_active_vertices_oc := temp_active_vertices_oc f @ [p]\<rparr> in
                  case addPointFromCloud pcl (temp_octree f1) (temp_active_vertices_oc f1)
                         (length (temp_active_vertices_oc f1) - 1) of
                    (False, t) \<Rightarrow> Inr (insert_caught (f1\<lparr>temp_octree := t\<rparr>))
                  | (True, t) \<Rightarrow>
                      (let v = length (temp_all_vertices f1) in
                       Inr (f1\<lparr>temp_octree := t,
                               temp_all_vertices := temp_all_vertices f1 @ [p],
                               remapping_oc := (remapping_oc f1)(i \<mapsto> v),
                               temp_active_vertices_index := temp_active_vertices_index f1 @ [v],
                               temp_new_indices := temp_new_indices f1 @ [v],
                               temp_have_adjacent_polygons :=
                                 (temp_have_adjacent_polygons f1)(v \<mapsto> False)\<rparr>)))
               else
                 (case approxNearestSearch pcl (temp_octree f) p of
                    None \<Rightarrow> Inr (insert_caught f)
                  | Some result_idx \<Rightarrow>
                      if result_idx < length (temp_active_vertices_index f) then
                        (let v = temp_active_vertices_index f ! result_idx;
                             f1 = f\<lparr>remapping_oc := (remapping_oc f)(i \<mapsto> v)\<rparr>
                         in if result_idx < original_size_active \<and> v \<notin> set (temp_new_indices f1)
                            then Inr (f1\<lparr>temp_new_indices := temp_new_indices f1 @ [v],
                                         temp_have_adjacent_polygons :=
                                           (temp_have_adjacent_polygons f1)(v \<mapsto> True)\<rparr>)
                            else Inr f1)
                      else Inl UndefinedBehaviour)))"

fun first_pass_vertices ::
  "('c, 'o) pcl_octree \<Rightarrow> nat \<Rightarrow> nat \<Rightarrow> 'c point list \<Rightarrow> ('c, 'o) first_pass
     \<Rightarrow> (error \<times> ('c, 'o) first_pass) + ('c, 'o) first_pass" where
  "first_pass_vertices pcl original_size_active i [] f = Inr f"
| "first_pass_vertices pcl original_size_active i (p # ps) f =
     (case first_pass_vertex pcl original_size_active i p f of
        Inl e \<Rightarrow> Inl (e, f)
      | Inr f' \<Rightarrow> first_pass_vertices pcl original_size_active (Suc i) ps f')"

text \<open>
  The pass over the faces, lines 133-165. \<^verbatim>\<open>remapping[idx]\<close> on a \<^verbatim>\<open>std::map\<close> gives 0
  for an absent key (and inserts it, which no later statement can tell from the key
  being absent, since the map is only read through \<^verbatim>\<open>operator[]\<close>).
\<close>

definition map_at :: "(nat \<rightharpoonup> nat) \<Rightarrow> nat \<Rightarrow> nat" where
  "map_at m k = (case m k of None \<Rightarrow> 0 | Some v \<Rightarrow> v)"

definition check_polygon ::
  "nat \<Rightarrow> ('c, 'o) octree_store \<Rightarrow> (nat \<rightharpoonup> nat) \<Rightarrow> nat list list \<times> (nat \<rightharpoonup> bool) \<Rightarrow> nat list
     \<Rightarrow> nat list list \<times> (nat \<rightharpoonup> bool)" where
  "check_polygon original_size_all s rm acc polygon =
     (let new_polygon = map (map_at rm) polygon;
          new_surface = list_ex (\<lambda>v. v \<ge> original_size_all) new_polygon
      in if degenerate new_polygon then acc
         else if (if \<not> new_surface
                  then \<not> SurfaceExists new_polygon (adjacent_polygons_oc s) (polygons_oc s)
                  else new_surface)
         then (fst acc @ [new_polygon], fold (\<lambda>v m. m(v \<mapsto> True)) new_polygon (snd acc))
         else acc)"

text \<open>
  The second pass, lines 171-196, works on the members and the output buffers. No
  statement of it is inside a \<^verbatim>\<open>try\<close>: \<^verbatim>\<open>temp_have_adjacent_polygons.at(idx)\<close> throws
  \<^verbatim>\<open>std::out_of_range\<close>, and an exception of \<^verbatim>\<open>octree_->addPointFromCloud\<close> leaves the
  call after the point has been pushed to \<^verbatim>\<open>new_vertices\<close> and \<^verbatim>\<open>active_vertices_\<close>.
  \<^verbatim>\<open>temp_all_vertices.points[idx]\<close> and \<^verbatim>\<open>vertices_latest_time_[idx]\<close> are unchecked.
\<close>

record ('c, 'o) second_pass =
  store_oc :: "('c, 'o) octree_store"
  out_oc :: "(real \<times> real \<times> real, 'c, unit) outputs"
  second_remapping :: "nat \<rightharpoonup> nat"

definition second_pass_index ::
  "('c, 'o) pcl_octree \<Rightarrow> real \<Rightarrow> nat \<Rightarrow> 'c point list \<Rightarrow> (nat \<rightharpoonup> bool) \<Rightarrow> nat
     \<Rightarrow> ('c, 'o) second_pass \<Rightarrow> (error \<times> ('c, 'o) second_pass) + ('c, 'o) second_pass" where
  "second_pass_index pcl stamp_in_sec original_size_all temp_all has_adjacent idx c =
     (case has_adjacent idx of
        None \<Rightarrow> Inl (OutOfRange, c)
      | Some False \<Rightarrow> Inr c
      | Some True \<Rightarrow>
          if idx \<ge> original_size_all then
            (if idx < length temp_all then
               (let p = temp_all ! idx;
                    b1 = (out_oc c)\<lparr>new_vertices := new_vertices (out_oc c) @ [p]\<rparr>;
                    s1 = (store_oc c)\<lparr>active_vertices := active_vertices (store_oc c) @ [p]\<rparr>
                in case addPointFromCloud pcl (octree s1) (active_vertices s1)
                          (length (active_vertices s1) - 1) of
                     (False, t) \<Rightarrow>
                       Inl (SpatialIndexFailure, c\<lparr>store_oc := s1\<lparr>octree := t\<rparr>, out_oc := b1\<rparr>)
                   | (True, t) \<Rightarrow>
                       (let v = length (all_vertices_oc s1) in
                        Inr (c\<lparr>store_oc := s1\<lparr>octree := t,
                                 all_vertices_oc := all_vertices_oc s1 @ [p],
                                 active_vertices_index_oc := active_vertices_index_oc s1 @ [v],
                                 vertices_latest_time_oc := vertices_latest_time_oc s1 @ [stamp_in_sec],
                                 adjacent_polygons_oc := (adjacent_polygons_oc s1)(v \<mapsto> [])\<rparr>,
                               out_oc := b1\<lparr>new_indices := new_indices b1 @ [v]\<rparr>,
                               second_remapping := (second_remapping c)(idx \<mapsto> v)\<rparr>)))
             else Inl (UndefinedBehaviour, c))
          else
            (let c1 = c\<lparr>second_remapping := (second_remapping c)(idx \<mapsto> idx),
                        out_oc := (out_oc c)\<lparr>new_indices := new_indices (out_oc c) @ [idx]\<rparr>\<rparr>
             in if idx < length (vertices_latest_time_oc (store_oc c1)) then
                  Inr (c1\<lparr>store_oc := (store_oc c1)\<lparr>vertices_latest_time_oc :=
                             (vertices_latest_time_oc (store_oc c1))[idx := stamp_in_sec]\<rparr>\<rparr>)
                else Inl (UndefinedBehaviour, c1)))"

fun second_pass_indices ::
  "('c, 'o) pcl_octree \<Rightarrow> real \<Rightarrow> nat \<Rightarrow> 'c point list \<Rightarrow> (nat \<rightharpoonup> bool) \<Rightarrow> nat list
     \<Rightarrow> ('c, 'o) second_pass \<Rightarrow> (error \<times> ('c, 'o) second_pass) + ('c, 'o) second_pass" where
  "second_pass_indices pcl stamp_in_sec original_size_all temp_all has_adjacent [] c = Inr c"
| "second_pass_indices pcl stamp_in_sec original_size_all temp_all has_adjacent (idx # rest) c =
     (case second_pass_index pcl stamp_in_sec original_size_all temp_all has_adjacent idx c of
        Inl ec \<Rightarrow> Inl ec
      | Inr c' \<Rightarrow> second_pass_indices pcl stamp_in_sec original_size_all temp_all has_adjacent rest c')"

text \<open>The new triangles are stored with their second remapping, lines 201-213.\<close>

definition add_triangle :: "('c, 'o) second_pass \<Rightarrow> nat list \<Rightarrow> ('c, 'o) second_pass" where
  "add_triangle c t =
     (let reindexed_t = map (map_at (second_remapping c)) t in
      c\<lparr>store_oc := (store_oc c)\<lparr>
           polygons_oc := polygons_oc (store_oc c) @ [reindexed_t],
           adjacent_polygons_oc :=
             foldl (push_adjacent (length (polygons_oc (store_oc c))))
               (adjacent_polygons_oc (store_oc c)) reindexed_t\<rparr>,
        out_oc := (out_oc c)\<lparr>new_triangles := new_triangles (out_oc c) @ [reindexed_t]\<rparr>\<rparr>)"

text \<open>
  \<^verbatim>\<open>compressAndIntegrate(input_vertices, input_surfaces, ...)\<close>, lines 46-215. The result
  is the log, the exception that left the call, if any, and the members and the output
  buffers as the call leaves them. The overload for a \<^verbatim>\<open>pcl::PolygonMesh\<close> (lines
  27-44) only unpacks the mesh and calls this one.
\<close>

definition compressAndIntegrate_octree ::
  "('c, 'o) pcl_octree \<Rightarrow> ('c, 'o) octree_store \<Rightarrow> 'c point list \<Rightarrow> nat list list
     \<Rightarrow> (real \<times> real \<times> real, 'c, unit) outputs \<Rightarrow> real
     \<Rightarrow> string list \<times> error option \<times> ('c, 'o) octree_store \<times> (real \<times> real \<times> real, 'c, unit) outputs" where
  "compressAndIntegrate_octree pcl s input_vertices surfaces buffers stamp_in_sec =
     (if length input_vertices < 3 \<or> length surfaces = 0 then ([], None, s, buffers)
      else
        let original_size_all = length (all_vertices_oc s);
            original_size_active = length (active_vertices s)
        in
        case first_pass_vertices pcl original_size_active 0 input_vertices
               \<lparr>temp_active_vertices_oc = active_vertices s,
                temp_all_vertices = all_vertices_oc s,
                temp_octree = octree s,
                temp_active_vertices_index = active_vertices_index_oc s,
                temp_new_indices = [],
                temp_have_adjacent_polygons = Map.empty,
                remapping_oc = Map.empty,
                ros_error = []\<rparr> of
          Inl (e, f) \<Rightarrow> (ros_error f, Some e, s, buffers)
        | Inr f \<Rightarrow>
            if length (temp_new_indices f) < 3 then (ros_error f, None, s, buffers)
            else
              (let checked = foldl (check_polygon original_size_all s (remapping_oc f))
                               ([], temp_have_adjacent_polygons f) surfaces;
                   temp_new_triangles = fst checked
               in if length temp_new_triangles = 0 then (ros_error f, None, s, buffers)
                  else
                    case second_pass_indices pcl stamp_in_sec original_size_all
                           (temp_all_vertices f) (snd checked) (temp_new_indices f)
                           \<lparr>store_oc = s, out_oc = buffers, second_remapping = Map.empty\<rparr> of
                      Inl (e, c) \<Rightarrow> (ros_error f, Some e, store_oc c, out_oc c)
                    | Inr c \<Rightarrow>
                        if length (new_indices (out_oc c)) = 0
                        then (ros_error f, None, store_oc c, out_oc c)
                        else
                          (let c' = foldl add_triangle c temp_new_triangles
                           in (ros_error f, None, store_oc c', out_oc c'))))"

section \<open>A voxel grid for the hooks\<close>

text \<open>
  Modelled from the spec: the spatial index behind the hooks, whose code is not among the
  sources. Section 4.1: a voxel grid keyed by quantized coordinates, in which each
  occupied cell stores the slot of the first point that landed in it; a query reports
  that slot iff the cell of the point is occupied. \<open>cell\<close> is the quantization. The grid
  never fails.
\<close>

fun first_in_cell :: "('p \<Rightarrow> 'k) \<Rightarrow> 'k \<Rightarrow> nat \<Rightarrow> 'p list \<Rightarrow> query" where
  "first_in_cell cell c j [] = Unique"
| "first_in_cell cell c j (q # qs) = (if cell q = c then Seen j else first_in_cell cell c (Suc j) qs)"

definition grid_hooks :: "('p \<Rightarrow> 'k) \<Rightarrow> 'p hooks" where
  "grid_hooks cell =
     \<lparr>checkIfVertexUnique = (\<lambda>ps p. first_in_cell cell (cell p) 0 ps),
      checkIfVertexTempUnique = (\<lambda>ps p. first_in_cell cell (cell p) 0 ps),
      updateStructure = (\<lambda>ps. True),
      updateTempStructure = (\<lambda>ps. True),
      reInitializeStructure = (\<lambda>ps. True)\<rparr>"

section \<open>Notions used to state the properties\<close>

text \<open>
  The slots of \<open>js\<close> whose last-seen time is later than the cutoff, and the slots
  \<^verbatim>\<open>pruneStoredMesh\<close> visits and keeps: its loop runs over the length of
  \<^verbatim>\<open>vertices_latest_time_\<close>.
\<close>

definition newer :: "('p, 'c) mesh_store \<Rightarrow> real \<Rightarrow> nat list \<Rightarrow> nat list" where
  "newer s t js = filter (\<lambda>i. t < vertices_latest_time s ! i) js"

definition survivors :: "('p, 'c) mesh_store \<Rightarrow> real \<Rightarrow> nat list" where
  "survivors s t = newer s t [0..<length (vertices_latest_time s)]"

text \<open>
  The bookkeeping invariant of the store. Every active vertex id and every vertex id of
  a stored triangle is an index of \<^verbatim>\<open>all_vertices_\<close>, and the adjacency entry of an
  active vertex id lists every stored triangle that contains it.
\<close>

definition adjacency_complete :: "('p, 'c) mesh_store \<Rightarrow> bool" where
  "adjacency_complete s =
     (\<forall>j<length (polygons s). \<forall>v\<in>set (polygons s ! j).
        v \<in> set (active_vertices_index s) \<longrightarrow> j \<in> set (map_subscript (adjacent_polygons s) v))"

definition store_inv :: "('p, 'c) mesh_store \<Rightarrow> bool" where
  "store_inv s =
     (list_all (\<lambda>v. v < length (all_vertices s)) (active_vertices_index s) \<and>
      list_all (list_all (\<lambda>v. v < length (all_vertices s))) (polygons s) \<and>
      adjacency_complete s)"

text \<open>
  The lengths of the three arrays of the active set: a last-seen time for every entry of
  the active-to-all array, and a position for each of them. The position list is the
  longer one after an insert into the spatial index has thrown.
\<close>

definition lengths_inv :: "('p, 'c) mesh_store \<Rightarrow> bool" where
  "lengths_inv s =
     (length (vertices_latest_time s) = length (active_vertices_index s) \<and>
      length (active_vertices_index s) \<le> length (active_vertices_xyz s))"

text \<open>
  What a call that has not reached the second pass over the faces may have done to the
  store \<open>s\<close> it started from: the triangles and the adjacency map are untouched, the
  vertex list, the positions and the active-to-all array have only grown at the end, and
  an old slot of the time array holds its old time or the stamp of the call.
\<close>

definition grown_from :: "real \<Rightarrow> ('p, 'c) mesh_store \<Rightarrow> ('p, 'c) mesh_store \<Rightarrow> bool" where
  "grown_from stamp s s' =
     (polygons s' = polygons s \<and>
      adjacent_polygons s' = adjacent_polygons s \<and>
      prefix (all_vertices s) (all_vertices s') \<and>
      prefix (active_vertices_xyz s) (active_vertices_xyz s') \<and>
      prefix (active_vertices_index s) (active_vertices_index s') \<and>
      length (vertices_latest_time s) \<le> length (vertices_latest_time s') \<and>
      list_all (\<lambda>i. vertices_latest_time s' ! i = vertices_latest_time s ! i \<or>
                     vertices_latest_time s' ! i = stamp)
        [0..<length (vertices_latest_time s)])"

text \<open>
  The invariant of the locals between the passes: the store invariant, and every
  \<^verbatim>\<open>reindex\<close> entry is an active vertex id.
\<close>

definition work_inv :: "('p, 'c, 'r, 'z) work_scheme \<Rightarrow> bool" where
  "work_inv w =
     (store_inv (store w) \<and> ran (reindex w) \<subseteq> set (active_vertices_index (store w)))"

text \<open>
  A flat call run part of its way. \<open>start\<close> are the locals the call begins with.
  \<open>classified_upto \<dots> j\<close> is the loop of lines 72-105 run over the first \<open>j\<close> input
  vertices only. \<open>committed_upto \<dots> k\<close> is that loop run over all of them, then the first
  pass over the faces, then the commit loop of lines 131-160 run over the first \<open>k\<close>
  provisional vertices only. Both give the locals at that moment, or the error that
  came first. \<open>query_fails h w p\<close>: one of the hook calls that the classification of a
  vertex at position \<open>p\<close> makes from the locals \<open>w\<close> throws.
\<close>

definition start ::
  "('p, 'c) mesh_store \<Rightarrow> ('p, 'c, nat \<rightharpoonup> nat) outputs \<Rightarrow> ('p, 'c, nat \<rightharpoonup> nat) work" where
  "start s buffers =
     \<lparr>store = s, out = buffers, reindex = Map.empty, temp_reindex = [],
      potential_new_vertices = [], potential_new_vertices_check = [],
      temp_new_vertices = []\<rparr>"

definition classified_upto ::
  "'p hooks \<Rightarrow> ('p, 'c) mesh_store \<Rightarrow> ('p \<times> 'c) list \<Rightarrow> ('p, 'c, nat \<rightharpoonup> nat) outputs
     \<Rightarrow> real \<Rightarrow> nat
     \<Rightarrow> (error \<times> ('p, 'c, nat \<rightharpoonup> nat) work) + ('p, 'c, nat \<rightharpoonup> nat) work" where
  "classified_upto h s V buffers stamp j =
     classify_vertices h stamp (length (all_vertices s)) 0 (take j V) (start s buffers)"

definition committed_upto ::
  "'p hooks \<Rightarrow> ('p, 'c) mesh_store \<Rightarrow> ('p \<times> 'c) list \<Rightarrow> nat list list
     \<Rightarrow> ('p, 'c, nat \<rightharpoonup> nat) outputs \<Rightarrow> real \<Rightarrow> nat
     \<Rightarrow> (error \<times> ('p, 'c, nat \<rightharpoonup> nat) work) + ('p, 'c, nat \<rightharpoonup> nat) work" where
  "committed_upto h s V S buffers stamp k =
     (case classified_upto h s V buffers stamp (length V) of
        Inl ew \<Rightarrow> Inl ew
      | Inr w1 \<Rightarrow>
          (case check_surfaces (length (all_vertices s)) (temp_reindex w1) S
                  (potential_new_vertices_check w1) of
             Inl e \<Rightarrow> Inl (e, w1)
           | Inr chk \<Rightarrow>
               commit_vertices h stamp V [0..<k]
                 (w1\<lparr>potential_new_vertices_check := chk,
                     out := (out w1)\<lparr>remapping := reindex w1\<rparr>\<rparr>)))"

definition query_fails :: "'p hooks \<Rightarrow> ('p, 'c, 'r, 'z) work_scheme \<Rightarrow> 'p \<Rightarrow> bool" where
  "query_fails h w p =
     (case checkIfVertexUnique h (active_vertices_xyz (store w)) p of
        QueryFailed \<Rightarrow> True
      | Unique \<Rightarrow>
          (case checkIfVertexTempUnique h (temp_new_vertices w) p of
             QueryFailed \<Rightarrow> True
           | Unique \<Rightarrow> \<not> updateTempStructure h (temp_new_vertices w @ [p])
           | Seen r \<Rightarrow> False)
      | Seen r \<Rightarrow> False)"

text \<open>
  The compressor as constructed, empty output buffers, and the quantization of a voxel
  grid of resolution 1.0 over real coordinates.
\<close>

definition empty_store :: "('p, 'c) mesh_store" where
  "empty_store =
     \<lparr>all_vertices = [], active_vertices_xyz = [], active_vertices_index = [],
      vertices_latest_time = [], polygons = [], adjacent_polygons = Map.empty\<rparr>"

definition empty_buffers :: "('p, 'c, 'k \<rightharpoonup> 'v) outputs" where
  "empty_buffers =
     \<lparr>new_vertices = [], new_triangles = [], new_indices = [], remapping = Map.empty\<rparr>"

text \<open>
  The stores a compressor can be in: the one it is constructed with, and what a call of
  either \<^verbatim>\<open>compressAndIntegrate\<close> (also one left by an exception) or a completed
  \<^verbatim>\<open>pruneStoredMesh\<close> makes of a store it can be in. A \<^verbatim>\<open>voxblox::BlockIndex\<close> is a
  vector of three integers.
\<close>

inductive reachable :: "'p hooks \<Rightarrow> ('p, 'c) mesh_store \<Rightarrow> bool" for h :: "'p hooks" where
  constructed: "reachable h empty_store"
| flat_batch: "reachable h s \<Longrightarrow>
     reachable h (fst (snd (compressAndIntegrate h s V S buffers stamp)))"
| block_batch: "reachable h s \<Longrightarrow>
     reachable h (fst (snd (compressAndIntegrate_blocks h s
        (mbs :: (int \<times> int \<times> int, 'p, 'c) mesh_block list) buffers stamp)))"
| pruned: "reachable h s \<Longrightarrow> snd (pruneStoredMesh h s t) = Inr s' \<Longrightarrow> reachable h s'"

definition cell3 :: "real \<times> real \<times> real \<Rightarrow> int \<times> int \<times> int" where
  "cell3 p = (case p of (x, y, z) \<Rightarrow> (\<lfloor>x\<rfloor>, \<lfloor>y\<rfloor>, \<lfloor>z\<rfloor>))"

text \<open>
  Modelled from the spec: the same grid behind the calls of the PCL octree, for a grid of
  resolution 1.0 over real coordinates. The octree holds the positions added to it; a
  voxel is occupied iff one of them falls into the cell of the point, and the search
  reports the first of them that does. Its bounding box is a cube around the origin
  that holds every point used below.
\<close>

definition grid_octree :: "('c, (real \<times> real \<times> real) list) pcl_octree" where
  "grid_octree =
     \<lparr>getBoundingBox = (\<lambda>t. Some ((- 100, - 100, - 100), (100, 100, 100))),
      isVoxelOccupiedAtPoint = (\<lambda>t p. Some (list_ex (\<lambda>q. cell3 q = cell3 (fst p)) t)),
      addPointFromCloud = (\<lambda>t cloud i. (True, t @ [fst (cloud ! i)])),
      approxNearestSearch =
        (\<lambda>t p. case first_in_cell cell3 (cell3 (fst p)) 0 t of
                 QueryFailed \<Rightarrow> None | Unique \<Rightarrow> None | Seen j \<Rightarrow> Some j)\<rparr>"

text \<open>
  Three stores used as concrete inputs. \<open>orphan_store\<close> holds three committed vertices
  and no triangle (it is what a flat batch leaves whose only face names a converged
  input, lemma \<open>orphan_store_reached\<close>). \<open>two_triangle_store\<close> is the store after two far
  triangles, the second one seen again at time 2. \<open>misaligned_store\<close> holds one committed
  vertex and the position of a second one whose insert into the spatial index has
  thrown (lemma \<open>misaligned_store_reached\<close>). After them the octree compressor as
  constructed, with the octree of \<open>grid_octree\<close>, and its empty output buffers.
\<close>

definition orphan_store :: "(real \<times> real \<times> real, unit) mesh_store" where
  "orphan_store =
     \<lparr>all_vertices = [((0, 0, 0), ()), ((2, 0, 0), ()), ((0, 2, 0), ())],
      active_vertices_xyz = [(0, 0, 0), (2, 0, 0), (0, 2, 0)],
      active_vertices_index = [0, 1, 2],
      vertices_latest_time = [1, 1, 1],
      polygons = [],
      adjacent_polygons = Map.empty\<rparr>"

definition two_triangle_store :: "(real \<times> real \<times> real, unit) mesh_store" where
  "two_triangle_store =
     \<lparr>all_vertices = [((0, 0, 0), ()), ((2, 0, 0), ()), ((0, 2, 0), ()),
                      ((10, 0, 0), ()), ((12, 0, 0), ()), ((10, 2, 0), ())],
      active_vertices_xyz = [(0, 0, 0), (2, 0, 0), (0, 2, 0), (10, 0, 0), (12, 0, 0), (10, 2, 0)],
      active_vertices_index = [0, 1, 2, 3, 4, 5],
      vertices_latest_time = [1, 1, 1, 2, 2, 2],
      polygons = [[0, 1, 2], [3, 4, 5]],
      adjacent_polygons =
        [0 \<mapsto> [0], 1 \<mapsto> [0], 2 \<mapsto> [0], 3 \<mapsto> [1], 4 \<mapsto> [1], 5 \<mapsto> [1]]\<rparr>"

definition misaligned_store :: "(real \<times> real \<times> real, unit) mesh_store" where
  "misaligned_store =
     \<lparr>all_vertices = [((0, 0, 0), ())],
      active_vertices_xyz = [(0, 0, 0), (19 / 2, 19 / 2, 19 / 2)],
      active_vertices_index = [0],
      vertices_latest_time = [1],
      polygons = [],
      adjacent_polygons = Map.empty\<rparr>"

definition empty_octree_store :: "('c, 'p list) octree_store" where
  "empty_octree_store =
     \<lparr>all_vertices_oc = [], active_vertices = [], octree = [], active_vertices_index_oc = [],
      vertices_latest_time_oc = [], polygons_oc = [], adjacent_polygons_oc = Map.empty\<rparr>"

definition empty_octree_buffers :: "(real \<times> real \<times> real, 'c, unit) outputs" where
  "empty_octree_buffers =
     \<lparr>new_vertices = [], new_triangles = [], new_indices = [], remapping = ()\<rparr>"

text \<open>
  The shape of the locals after \<open>n\<close> input vertices: one \<^verbatim>\<open>temp_reindex\<close> entry per
  vertex, one check flag per provisional vertex, and every provisional vertex an input
  seen so far. For a mesh of blocks \<open>n\<close> is \<^verbatim>\<open>count\<close>, the number of parsed points.
\<close>

definition in_step :: "nat \<Rightarrow> ('p, 'c, 'r, 'z) work_scheme \<Rightarrow> bool" where
  "in_step n w =
     (length (temp_reindex w) = n \<and>
      length (potential_new_vertices_check w) = length (potential_new_vertices w) \<and>
      length (potential_new_vertices w) \<le> n \<and>
      list_all (\<lambda>k. k < n) (potential_new_vertices w))"

definition in_block_step :: "('p, 'c, 'b) block_work \<Rightarrow> bool" where
  "in_block_step w = (in_step (count w) w \<and> length (all_parsed_points w) = count w)"

text \<open>
  What holds of \<^verbatim>\<open>new_indices\<close> during a call: no entry twice, and every entry, like every
  active vertex id, an index of \<^verbatim>\<open>all_vertices_\<close>.
\<close>

definition fresh_indices :: "('p, 'c, 'r, 'z) work_scheme \<Rightarrow> bool" where
  "fresh_indices w =
     (distinct (new_indices (out w)) \<and>
      list_all (\<lambda>v. v < length (all_vertices (store w))) (new_indices (out w)) \<and>
      list_all (\<lambda>v. v < length (all_vertices (store w))) (active_vertices_index (store w)))"

text \<open>
  \<open>duplicates_are_fresh P0 N ps\<close>: a triangle of \<open>ps\<close> at position \<open>P0\<close> or later has the
  vertex set of an earlier triangle only if that one is at position \<open>P0\<close> or later too
  and the set holds a vertex id \<open>N\<close> or larger. With \<open>P0\<close> and \<open>N\<close> the numbers of
  triangles and of vertices at the start of a call: both were appended by the call and
  name a vertex the call committed. \<open>appending\<close> is the invariant of the second pass
  over the faces.
\<close>

definition duplicates_are_fresh :: "nat \<Rightarrow> nat \<Rightarrow> nat list list \<Rightarrow> bool" where
  "duplicates_are_fresh P0 N ps =
     (\<forall>j<length ps. \<forall>i<j. P0 \<le> j \<longrightarrow> set (ps ! i) = set (ps ! j) \<longrightarrow>
        P0 \<le> i \<and> (\<exists>v\<in>set (ps ! j). N \<le> v))"

definition appending :: "('p, 'c) mesh_store \<Rightarrow> ('p, 'c, 'r, 'z) work_scheme \<Rightarrow> bool" where
  "appending s w =
     (work_inv w \<and> prefix (polygons s) (polygons (store w)) \<and>
      duplicates_are_fresh (length (polygons s)) (length (all_vertices s)) (polygons (store w)))"

text \<open>
  Batches used as concrete inputs, with coordinates in metres for a grid of resolution
  1.0. In \<open>converged_batch\<close> the second vertex falls into the cell of the first, and in
  \<open>two_converged_batch\<close> also the fourth into the cell of the third. \<open>revisit_batch\<close> and
  \<open>revisit_blocks\<close> come back to vertices of \<open>orphan_store\<close>. The point of
  \<open>failing_batch\<close> in cell \<open>(9, 9, 9)\<close> makes the query of \<open>failing_query_hooks\<close> throw;
  \<open>failing_insert_hooks\<close> throws on every \<^verbatim>\<open>updateStructure\<close>, and \<open>failing_cell_hooks\<close>
  on the \<^verbatim>\<open>updateStructure\<close> for a position in that cell, as the second one of
  \<open>insert_failure_batch\<close>. The occupancy query of \<open>failing_cell_octree\<close> throws for a point
  in that cell, as the second one of \<open>skipping_batch\<close>; every bounding-box query of
  \<open>broken_octree\<close> throws.
\<close>

definition converged_batch :: "((real \<times> real \<times> real) \<times> unit) list" where
  "converged_batch = [((0, 0, 0), ()), ((1 / 10, 0, 0), ()), ((2, 0, 0), ()), ((0, 2, 0), ())]"

definition two_converged_batch :: "((real \<times> real \<times> real) \<times> unit) list" where
  "two_converged_batch =
     [((0, 0, 0), ()), ((1 / 10, 0, 0), ()), ((2, 0, 0), ()), ((21 / 10, 0, 0), ()), ((0, 2, 0), ())]"

definition triangle_batch :: "((real \<times> real \<times> real) \<times> unit) list" where
  "triangle_batch = [((0, 0, 0), ()), ((2, 0, 0), ()), ((0, 2, 0), ())]"

definition revisit_batch :: "((real \<times> real \<times> real) \<times> unit) list" where
  "revisit_batch = [((1 / 10, 0, 0), ()), ((5, 0, 0), ()), ((5, 2, 0), ()), ((7, 0, 0), ())]"

definition failing_batch :: "((real \<times> real \<times> real) \<times> unit) list" where
  "failing_batch = [((1 / 10, 0, 0), ()), ((19 / 2, 19 / 2, 19 / 2), ()), ((5, 0, 0), ())]"

definition revisit_blocks :: "(int \<times> int \<times> int, real \<times> real \<times> real, unit) mesh_block list" where
  "revisit_blocks =
     [\<lparr>block_index = (0, 0, 0),
       block_points = [((1 / 10, 0, 0), ()), ((21 / 10, 0, 0), ()), ((1 / 10, 2, 0), ())]\<rparr>,
      \<lparr>block_index = (1, 0, 0), block_points = []\<rparr>]"

definition failing_insert_hooks :: "(real \<times> real \<times> real) hooks" where
  "failing_insert_hooks = (grid_hooks cell3)\<lparr>updateStructure := (\<lambda>ps. False)\<rparr>"

definition failing_query_hooks :: "(real \<times> real \<times> real) hooks" where
  "failing_query_hooks =
     (grid_hooks cell3)\<lparr>checkIfVertexUnique :=
        (\<lambda>ps p. if cell3 p = (9, 9, 9) then QueryFailed else first_in_cell cell3 (cell3 p) 0 ps)\<rparr>"

definition failing_cell_hooks :: "(real \<times> real \<times> real) hooks" where
  "failing_cell_hooks =
     (grid_hooks cell3)\<lparr>updateStructure := (\<lambda>ps. \<not> (ps \<noteq> [] \<and> cell3 (last ps) = (9, 9, 9)))\<rparr>"

definition insert_failure_batch :: "((real \<times> real \<times> real) \<times> unit) list" where
  "insert_failure_batch = [((0, 0, 0), ()), ((19 / 2, 19 / 2, 19 / 2), ()), ((0, 2, 0), ())]"

definition skipping_batch :: "((real \<times> real \<times> real) \<times> unit) list" where
  "skipping_batch =
     [((0, 0, 0), ()), ((19 / 2, 19 / 2, 19 / 2), ()), ((2, 0, 0), ()), ((0, 2, 0), ())]"

definition failing_cell_octree :: "(unit, (real \<times> real \<times> real) list) pcl_octree" where
  "failing_cell_octree =
     grid_octree\<lparr>isVoxelOccupiedAtPoint :=
        (\<lambda>t p. if cell3 (fst p) = (9, 9, 9) then None
                else Some (list_ex (\<lambda>q. cell3 q = cell3 (fst p)) t))\<rparr>"

definition broken_octree :: "(unit, (real \<times> real \<times> real) list) pcl_octree" where
  "broken_octree = grid_octree\<lparr>getBoundingBox := (\<lambda>t. None)\<rparr>"

section \<open>Pruning: what the loop computes\<close>

lemma map_touch_subscript: "map_subscript (map_touch m k) j = map_subscript m j"
  by (auto simp: map_subscript_def map_touch_def split: option.splits)

lemma prune_loop_ok:
  assumes "\<forall>i\<in>set js. t < vertices_latest_time s ! i \<longrightarrow>
             i < length (active_vertices_xyz s) \<and> i < length (active_vertices_index s)"
  shows "prune_loop s t js k = Inr
     \<lparr>temp_active_vertices = temp_active_vertices k @ map (nth (active_vertices_xyz s)) (newer s t js),
      temp_vertices_time = temp_vertices_time k @ map (nth (vertices_latest_time s)) (newer s t js),
      temp_vertices_index = temp_vertices_index k @ map (nth (active_vertices_index s)) (newer s t js),
      temp_adjacent_polygons =
        (\<lambda>v. if v \<in> nth (active_vertices_index s) ` set (newer s t js)
             then Some (map_subscript (touched_adjacent_polygons k) v)
             else temp_adjacent_polygons k v),
      touched_adjacent_polygons =
        (\<lambda>v. if v \<in> nth (active_vertices_index s) ` set (newer s t js) \<and>
                touched_adjacent_polygons k v = None
             then Some [] else touched_adjacent_polygons k v)\<rparr>"
  using assms
proof (induction js arbitrary: k)
  case Nil
  then show ?case by (simp add: newer_def)
next
  case (Cons i js)
  show ?case
  proof (cases "t < vertices_latest_time s ! i")
    case False
    with Cons show ?thesis by (simp add: newer_def)
  next
    case True
    with Cons.prems have inb: "i < length (active_vertices_xyz s)" "i < length (active_vertices_index s)"
      by auto
    from Cons.prems have rest: "\<forall>i\<in>set js. t < vertices_latest_time s ! i \<longrightarrow>
             i < length (active_vertices_xyz s) \<and> i < length (active_vertices_index s)" by simp
    show ?thesis
      using True inb
      apply (simp add: Cons.IH[OF rest])
      apply (simp add: newer_def map_touch_subscript)
      apply (intro conjI ext)
       apply (auto simp: map_touch_def map_subscript_def split: option.splits)
      done
  qed
qed

lemma prune_loop_ub:
  assumes "\<exists>i\<in>set js. t < vertices_latest_time s ! i \<and>
             \<not> (i < length (active_vertices_xyz s) \<and> i < length (active_vertices_index s))"
  shows "prune_loop s t js k = Inl UndefinedBehaviour"
  using assms
  by (induction js arbitrary: k) auto

lemma survivors_length: "length (survivors s t) \<le> length (vertices_latest_time s)"
  unfolding survivors_def newer_def
  by (metis length_filter_le length_upt minus_nat.diff_0)

lemma survivors_all:
  assumes "length (survivors s t) = length (vertices_latest_time s)"
  shows "survivors s t = [0..<length (vertices_latest_time s)]"
proof -
  let ?P = "\<lambda>i. t < vertices_latest_time s ! i"
  let ?xs = "[0..<length (vertices_latest_time s)]"
  from assms have "length (filter ?P ?xs) = length ?xs"
    by (simp add: survivors_def newer_def)
  then have "filter ?P ?xs = ?xs"
    by (metis filter_True length_filter_less nat_less_le)
  then show ?thesis by (simp add: survivors_def newer_def)
qed

lemma prune_loop_start:
  assumes "\<forall>i\<in>set (survivors s t).
             i < length (active_vertices_xyz s) \<and> i < length (active_vertices_index s)"
  shows "prune_loop s t [0..<length (vertices_latest_time s)]
           \<lparr>temp_active_vertices = [], temp_vertices_time = [], temp_vertices_index = [],
            temp_adjacent_polygons = Map.empty,
            touched_adjacent_polygons = adjacent_polygons s\<rparr> = Inr
     \<lparr>temp_active_vertices = map (nth (active_vertices_xyz s)) (survivors s t),
      temp_vertices_time = map (nth (vertices_latest_time s)) (survivors s t),
      temp_vertices_index = map (nth (active_vertices_index s)) (survivors s t),
      temp_adjacent_polygons =
        (\<lambda>v. if v \<in> set (map (nth (active_vertices_index s)) (survivors s t))
             then Some (map_subscript (adjacent_polygons s) v) else None),
      touched_adjacent_polygons =
        (\<lambda>v. if v \<in> set (map (nth (active_vertices_index s)) (survivors s t)) \<and>
                adjacent_polygons s v = None
             then Some [] else adjacent_polygons s v)\<rparr>"
proof -
  have "\<forall>i\<in>set [0..<length (vertices_latest_time s)]. t < vertices_latest_time s ! i \<longrightarrow>
             i < length (active_vertices_xyz s) \<and> i < length (active_vertices_index s)"
    using assms unfolding survivors_def newer_def by simp
  from prune_loop_ok[OF this] show ?thesis
    unfolding survivors_def by (simp cong: if_cong)
qed

lemma prune_result:
  assumes "\<forall>i\<in>set (survivors s t).
             i < length (active_vertices_xyz s) \<and> i < length (active_vertices_index s)"
    and "active_vertices_xyz s \<noteq> []"
  shows "snd (pruneStoredMesh h s t) = Inr
     (if length (survivors s t) < length (active_vertices_xyz s) then
        s\<lparr>active_vertices_xyz := map (nth (active_vertices_xyz s)) (survivors s t),
          vertices_latest_time := map (nth (vertices_latest_time s)) (survivors s t),
          active_vertices_index := map (nth (active_vertices_index s)) (survivors s t),
          adjacent_polygons :=
            (\<lambda>v. if v \<in> set (map (nth (active_vertices_index s)) (survivors s t))
                 then Some (map_subscript (adjacent_polygons s) v) else None)\<rparr>
      else
        s\<lparr>adjacent_polygons :=
            (\<lambda>v. if v \<in> set (map (nth (active_vertices_index s)) (survivors s t)) \<and>
                    adjacent_polygons s v = None
                 then Some [] else adjacent_polygons s v)\<rparr>)"
  using assms(2) by (simp add: pruneStoredMesh_def prune_loop_start[OF assms(1)])

lemma prune_log:
  assumes "active_vertices_xyz s \<noteq> []"
    and "length (vertices_latest_time s) \<noteq> length (active_vertices_xyz s) \<or>
         length (active_vertices_index s) \<noteq> length (active_vertices_xyz s)"
  shows "fst (pruneStoredMesh h s t) \<noteq> []"
  using assms
  by (auto simp: pruneStoredMesh_def length_warnings_def split: sum.splits)

lemma prune_ub:
  assumes "\<not> (\<forall>i\<in>set (survivors s t).
             i < length (active_vertices_xyz s) \<and> i < length (active_vertices_index s))"
    and "active_vertices_xyz s \<noteq> []"
  shows "snd (pruneStoredMesh h s t) = Inl UndefinedBehaviour"
proof -
  from assms(1) have "\<exists>i\<in>set [0..<length (vertices_latest_time s)]. t < vertices_latest_time s ! i \<and>
             \<not> (i < length (active_vertices_xyz s) \<and> i < length (active_vertices_index s))"
    unfolding survivors_def newer_def by auto
  from prune_loop_ub[OF this] assms(2) show ?thesis
    by (simp add: pruneStoredMesh_def)
qed

lemmas prune_eval =
  pruneStoredMesh_def length_warnings_def map_subscript_def map_touch_def grid_hooks_def

text \<open>
  Pruning a store whose three active arrays have the same length. \<^verbatim>\<open>pruneStoredMesh\<close>
  with cutoff \<open>t\<close> keeps exactly the slots whose last-seen time is later than \<open>t\<close>, in
  order, in the position, time and active-to-all arrays, and leaves \<^verbatim>\<open>all_vertices_\<close> and
  \<^verbatim>\<open>polygons_\<close> as they are. When a slot is dropped the adjacency map is restricted to
  the surviving vertex ids. When no slot is dropped the arrays are unchanged, and the
  subscript \<^verbatim>\<open>adjacent_polygons_[k]\<close> has given every active vertex id without an entry an
  empty one: the call changes nothing exactly when every active vertex id has an entry.
\<close>

lemma prune_parallel_arrays:
  assumes "length (vertices_latest_time s) = length (active_vertices_xyz s)"
      and "length (active_vertices_index s) = length (active_vertices_xyz s)"
  shows "snd (pruneStoredMesh h s t) = Inr
     (s\<lparr>active_vertices_xyz := map (nth (active_vertices_xyz s)) (survivors s t),
        vertices_latest_time := map (nth (vertices_latest_time s)) (survivors s t),
        active_vertices_index := map (nth (active_vertices_index s)) (survivors s t),
        adjacent_polygons :=
          (if length (survivors s t) < length (active_vertices_xyz s)
           then (\<lambda>v. if v \<in> set (map (nth (active_vertices_index s)) (survivors s t))
                     then Some (map_subscript (adjacent_polygons s) v) else None)
           else (\<lambda>v. if v \<in> set (active_vertices_index s) \<and> adjacent_polygons s v = None
                     then Some [] else adjacent_polygons s v))\<rparr>)"
proof (cases "active_vertices_xyz s = []")
  case True
  with assms have "survivors s t = []" "active_vertices_index s = []" "vertices_latest_time s = []"
    by (simp_all add: survivors_def newer_def)
  with True show ?thesis by (simp add: pruneStoredMesh_def)
next
  case False
  have inb: "\<forall>i\<in>set (survivors s t).
             i < length (active_vertices_xyz s) \<and> i < length (active_vertices_index s)"
    using assms by (simp add: survivors_def newer_def)
  show ?thesis
  proof (cases "length (survivors s t) < length (active_vertices_xyz s)")
    case True
    then show ?thesis by (simp add: prune_result[OF inb False])
  next
    case nodrop: False
    with survivors_length[of s t] assms
    have "length (survivors s t) = length (vertices_latest_time s)" by simp
    then have all: "survivors s t = [0..<length (vertices_latest_time s)]"
      by (rule survivors_all)
    have 1: "map (nth (active_vertices_xyz s)) (survivors s t) = active_vertices_xyz s"
      unfolding all assms(1) by (rule map_nth)
    have 2: "map (nth (vertices_latest_time s)) (survivors s t) = vertices_latest_time s"
      unfolding all by (rule map_nth)
    have 3: "map (nth (active_vertices_index s)) (survivors s t) = active_vertices_index s"
      unfolding all assms(1) assms(2)[symmetric] by (rule map_nth)
    show ?thesis
      unfolding prune_result[OF inb False] 1 2 3 using nodrop by simp
  qed
qed

lemma prune_keyed_noop:
  assumes "length (vertices_latest_time s) = length (active_vertices_xyz s)"
    and "length (active_vertices_index s) = length (active_vertices_xyz s)"
    and "length (survivors s t) = length (active_vertices_xyz s)"
    and "\<forall>v\<in>set (active_vertices_index s). adjacent_polygons s v \<noteq> None"
  shows "snd (pruneStoredMesh h s t) = Inr s"
proof -
  from assms(1,3) have "survivors s t = [0..<length (vertices_latest_time s)]"
    by (simp add: survivors_all)
  then have m: "map (nth (active_vertices_xyz s)) (survivors s t) = active_vertices_xyz s"
    "map (nth (vertices_latest_time s)) (survivors s t) = vertices_latest_time s"
    "map (nth (active_vertices_index s)) (survivors s t) = active_vertices_index s"
    using assms(1,2) by (simp_all add: map_nth) (metis map_nth)+
  from assms(4) have a: "(\<lambda>v. if v \<in> set (active_vertices_index s) \<and> adjacent_polygons s v = None
                     then Some [] else adjacent_polygons s v) = adjacent_polygons s"
    by auto
  from prune_parallel_arrays[OF assms(1,2), of h t] assms(3) show ?thesis
    by (simp add: m a)
qed

lemma prune_two_triangle_store:
  "case snd (pruneStoredMesh (grid_hooks cell3) two_triangle_store (3 / 2)) of
      Inl e \<Rightarrow> False
    | Inr s' \<Rightarrow>
        active_vertices_xyz s' = [(10, 0, 0), (12, 0, 0), (10, 2, 0)] \<and>
        vertices_latest_time s' = [2, 2, 2] \<and>
        active_vertices_index s' = [3, 4, 5] \<and>
        map (adjacent_polygons s') [0, 1, 2, 3, 4, 5] =
          [None, None, None, Some [1], Some [1], Some [1]] \<and>
        all_vertices s' = all_vertices two_triangle_store \<and>
        polygons s' = polygons two_triangle_store"
  using prune_parallel_arrays [where s = two_triangle_store and h = "grid_hooks cell3" and t = "3 / 2"]
  by (simp add: two_triangle_store_def survivors_def newer_def map_subscript_def)

section \<open>Loops preserve what their steps preserve\<close>

lemma classify_vertices_rule:
  assumes "P w"
    and "\<And>i p w w'. P w \<Longrightarrow> classify_vertex h stamp N i p w = Inr w' \<Longrightarrow> P w'"
  shows "case classify_vertices h stamp N i ps w of Inl (e, w') \<Rightarrow> P w' | Inr w' \<Rightarrow> P w'"
  using assms(1)
proof (induction ps arbitrary: i w)
  case Nil
  then show ?case by simp
next
  case (Cons p ps)
  show ?case
  proof (cases "classify_vertex h stamp N i p w")
    case (Inl e)
    with Cons.prems show ?thesis by simp
  next
    case (Inr w1)
    with Cons.prems assms(2) have "P w1" by blast
    from Cons.IH[OF this] Inr show ?thesis by simp
  qed
qed

lemma commit_vertices_rule:
  assumes "P w"
    and "\<And>i w. P w \<Longrightarrow>
           (case commit_vertex h stamp V i w of Inl (e, w') \<Rightarrow> P w' | Inr w' \<Rightarrow> P w')"
  shows "case commit_vertices h stamp V js w of Inl (e, w') \<Rightarrow> P w' | Inr w' \<Rightarrow> P w'"
  using assms(1)
proof (induction js arbitrary: w)
  case Nil
  then show ?case by simp
next
  case (Cons i js)
  show ?case
  proof (cases "commit_vertex h stamp V i w")
    case (Inl ew)
    with assms(2)[OF Cons.prems, of i] show ?thesis by (simp split: prod.splits)
  next
    case (Inr w1)
    with assms(2)[OF Cons.prems, of i] have "P w1" by simp
    from Cons.IH[OF this] Inr show ?thesis by simp
  qed
qed

lemma add_surfaces_rule:
  assumes "P w" and "\<And>s w. P w \<Longrightarrow> P (add_surface N s w)"
  shows "P (add_surfaces N S w)"
  unfolding add_surfaces_def using assms(1)
  by (induction S arbitrary: w) (auto intro: assms(2))

lemma prefix_snoc: "prefix xs ys \<Longrightarrow> prefix xs (ys @ [y])"
  by (simp add: prefix_def) auto

lemma grown_from_refl: "grown_from stamp s s"
  by (simp add: grown_from_def list_all_iff)

lemma classify_vertex_grown:
  assumes "grown_from stamp s (store w)" and "classify_vertex h stamp N i p w = Inr w'"
  shows "grown_from stamp s (store w')"
  using assms
  by (auto simp: classify_vertex_def grown_from_def list_all_iff nth_list_update
           split: query.splits if_splits)

lemma commit_vertex_grown:
  assumes "grown_from stamp s (store w)"
  shows "case commit_vertex h stamp V i w of
           Inl (e, w') \<Rightarrow> grown_from stamp s (store w') | Inr w' \<Rightarrow> grown_from stamp s (store w')"
  using assms
  by (auto simp: commit_vertex_def grown_from_def list_all_iff nth_append Let_def prefix_snoc
           split: if_splits)

section \<open>Unchecked subscripts of the commit loops are in range\<close>

lemma in_step_push:
  assumes "in_step n w"
  shows "length (temp_reindex w @ [x]) = Suc n"
    and "length (potential_new_vertices w) \<le> Suc n"
    and "list_all (\<lambda>k. k < Suc n) (potential_new_vertices w)"
    and "list_all (\<lambda>k. k < Suc n) (potential_new_vertices w @ [n])"
    and "length (potential_new_vertices_check w @ [b]) = length (potential_new_vertices w @ [n])"
    and "length (potential_new_vertices w @ [n]) \<le> Suc n"
    and "length (potential_new_vertices_check w) = length (potential_new_vertices w)"
  using assms by (auto simp: in_step_def list_all_iff less_Suc_eq)

lemma classify_vertex_shape:
  assumes "in_step i w" and "classify_vertex h stamp N i p w = Inr w'"
  shows "in_step (Suc i) w'"
proof (cases "checkIfVertexUnique h (active_vertices_xyz (store w)) (fst p)")
  case QueryFailed
  with assms(2) show ?thesis by (simp add: classify_vertex_def)
next
  case Unique
  show ?thesis
  proof (cases "checkIfVertexTempUnique h (temp_new_vertices w) (fst p)")
    case QueryFailed
    with Unique assms(2) show ?thesis by (simp add: classify_vertex_def)
  next
    case u: Unique
    with Unique assms(2) in_step_push[OF assms(1)] show ?thesis
      by (auto simp: classify_vertex_def in_step_def split: if_splits)
  next
    case (Seen k)
    with Unique assms(2) in_step_push[OF assms(1)] show ?thesis
      by (auto simp: classify_vertex_def in_step_def)
  qed
next
  case (Seen r)
  with assms(2) in_step_push[OF assms(1)] show ?thesis
    by (auto simp: classify_vertex_def in_step_def split: if_splits)
qed

lemma classify_vertices_shape:
  assumes "in_step i w" and "classify_vertices h stamp N i ps w = Inr w'"
  shows "in_step (i + length ps) w'"
  using assms
proof (induction ps arbitrary: i w)
  case Nil
  then show ?case by simp
next
  case (Cons p ps)
  from Cons.prems(2) obtain w1 where
    1: "classify_vertex h stamp N i p w = Inr w1"
    and 2: "classify_vertices h stamp N (Suc i) ps w1 = Inr w'"
    by (auto split: sum.splits)
  from Cons.IH[OF classify_vertex_shape[OF Cons.prems(1) 1] 2] show ?case by simp
qed

lemma pass_check_length: "pass_check N vs chk = Inr chk' \<Longrightarrow> length chk' = length chk"
  by (induction vs arbitrary: chk) (auto split: if_splits)

lemma check_surfaces_length:
  "check_surfaces N tr S chk = Inr chk' \<Longrightarrow> length chk' = length chk"
proof (induction S arbitrary: chk)
  case Nil
  then show ?case by simp
next
  case (Cons s S)
  from Cons.prems obtain chk1 where
    1: "check_surface N tr s chk = Inr chk1" and 2: "check_surfaces N tr S chk1 = Inr chk'"
    by (auto split: sum.splits)
  from 1 have "length chk1 = length chk"
    by (auto simp: check_surface_def pass_check_length split: sum.splits if_splits)
  with Cons.IH[OF 2] show ?case by simp
qed

lemma commit_subscripts_in_range:
  assumes "classify_vertices h stamp N 0 V
             \<lparr>store = s, out = buffers, reindex = Map.empty, temp_reindex = [],
              potential_new_vertices = [], potential_new_vertices_check = [],
              temp_new_vertices = []\<rparr> = Inr w1"
    and "check_surfaces N (temp_reindex w1) S (potential_new_vertices_check w1) = Inr chk"
    and "i < length (potential_new_vertices w1)"
  shows "i < length chk \<and> i < length (temp_reindex w1) \<and>
         potential_new_vertices w1 ! i < length V"
proof -
  have "in_step 0 \<lparr>store = s, out = buffers, reindex = Map.empty, temp_reindex = [],
              potential_new_vertices = [], potential_new_vertices_check = [],
              temp_new_vertices = []\<rparr>"
    by (simp add: in_step_def)
  from classify_vertices_shape[OF this assms(1)] have sh: "in_step (length V) w1" by simp
  with check_surfaces_length[OF assms(2)] assms(3) show ?thesis
    by (auto simp: in_step_def list_all_iff)
qed

lemma classify_block_vertex_shape:
  assumes "in_block_step w" and "classify_block_vertex h stamp N blk i p w = Inr w'"
  shows "in_step (Suc (count w)) w' \<and> length (all_parsed_points w') = Suc (count w) \<and>
         count w' = count w"
proof -
  from assms(1) have st: "in_step (count w) w" and ap: "length (all_parsed_points w) = count w"
    by (simp_all add: in_block_step_def)
  note push = in_step_push[OF st]
  show ?thesis
  proof (cases "checkIfVertexUnique h (active_vertices_xyz (store w)) (fst p)")
    case QueryFailed
    with assms(2) show ?thesis by (simp add: classify_block_vertex_def Let_def)
  next
    case Unique
    show ?thesis
    proof (cases "checkIfVertexTempUnique h (temp_new_vertices w) (fst p)")
      case QueryFailed
      with Unique assms(2) show ?thesis by (simp add: classify_block_vertex_def Let_def)
    next
      case u: Unique
      with Unique assms(2) push ap show ?thesis
        by (auto simp: classify_block_vertex_def Let_def in_step_def split: if_splits)
    next
      case (Seen k)
      with Unique assms(2) push ap show ?thesis
        by (auto simp: classify_block_vertex_def Let_def in_step_def split: if_splits)
    qed
  next
    case (Seen r)
    with assms(2) push ap show ?thesis
      by (auto simp: classify_block_vertex_def Let_def in_step_def split: if_splits)
  qed
qed

lemma close_surface_fields:
  assumes "close_surface N i w = Inr w'"
  shows "temp_reindex w' = temp_reindex w \<and>
         potential_new_vertices w' = potential_new_vertices w \<and>
         length (potential_new_vertices_check w') = length (potential_new_vertices_check w) \<and>
         all_parsed_points w' = all_parsed_points w \<and> count w' = count w"
proof (cases "i mod 3 = 2")
  case False
  with assms show ?thesis by (simp add: close_surface_def)
next
  case True
  let ?s = "[count w - 2, count w - 1, count w]"
  let ?w = "w\<lparr>input_surfaces := input_surfaces w @ [?s]\<rparr>"
  show ?thesis
  proof (cases "reindex_at (temp_reindex w) ?s")
    case (Inl e)
    with True assms show ?thesis
      by (simp add: close_surface_def Let_def del: reindex_at.simps)
  next
    case (Inr r)
    show ?thesis
    proof (cases "list_ex (\<lambda>v. v \<ge> N) r \<and> \<not> degenerate r")
      case False
      with True Inr assms have "w' = ?w"
        by (auto simp: close_surface_def Let_def simp del: reindex_at.simps split: if_splits)
      then show ?thesis by simp
    next
      case keep: True
      show ?thesis
      proof (cases "pass_check N r (potential_new_vertices_check w)")
        case (Inl e)
        with keep True Inr assms show ?thesis
          by (simp add: close_surface_def Let_def del: reindex_at.simps)
      next
        case chk: (Inr chk)
        with keep True Inr assms have "w' = ?w\<lparr>potential_new_vertices_check := chk\<rparr>"
          by (simp add: close_surface_def Let_def del: reindex_at.simps)
        with pass_check_length[OF chk] show ?thesis by simp
      qed
    qed
  qed
qed

lemma close_surface_shape:
  assumes "in_step n w" and "close_surface N i w = Inr w'"
  shows "in_step n w' \<and> all_parsed_points w' = all_parsed_points w \<and> count w' = count w"
  using assms(1) close_surface_fields[OF assms(2)] by (simp add: in_step_def)

lemma parse_block_vertices_shape:
  assumes "in_block_step w" and "parse_block_vertices h stamp N blk i ps w = Inr w'"
  shows "in_block_step w'"
  using assms
proof (induction ps arbitrary: i w)
  case Nil
  then show ?case by simp
next
  case (Cons p ps)
  from Cons.prems(2) obtain w1 w2 where
    1: "classify_block_vertex h stamp N blk i p w = Inr w1"
    and 2: "close_surface N i w1 = Inr w2"
    and 3: "parse_block_vertices h stamp N blk (Suc i) ps (w2\<lparr>count := Suc (count w2)\<rparr>) = Inr w'"
    by (auto split: sum.splits)
  note a = classify_block_vertex_shape[OF Cons.prems(1) 1]
  from a have "in_step (Suc (count w)) w1" by simp
  note b = close_surface_shape[OF this 2]
  from a b have "in_block_step (w2\<lparr>count := Suc (count w2)\<rparr>)"
    by (simp add: in_block_step_def in_step_def)
  from Cons.IH[OF this 3] show ?case .
qed

lemma parse_blocks_shape:
  assumes "in_block_step w" and "parse_blocks h stamp N mbs w = Inr w'"
  shows "in_block_step w'"
  using assms
proof (induction mbs arbitrary: w)
  case Nil
  then show ?case by simp
next
  case (Cons mb mbs)
  let ?w = "w\<lparr>out := (out w)\<lparr>remapping :=
               map_insert (remapping (out w)) (block_index mb) Map.empty\<rparr>\<rparr>"
  from Cons.prems(2) obtain w1 where
    1: "parse_block_vertices h stamp N (block_index mb) 0 (block_points mb) ?w = Inr w1"
    and 2: "parse_blocks h stamp N mbs w1 = Inr w'"
    by (auto split: if_splits sum.splits)
  have "in_block_step ?w" using Cons.prems(1) by (simp add: in_block_step_def in_step_def)
  from Cons.IH[OF parse_block_vertices_shape[OF this 1] 2] show ?case .
qed

lemma commit_block_subscripts_in_range:
  assumes "parse_blocks h stamp N mbs
             \<lparr>store = s, out = buffers, reindex = Map.empty, temp_reindex = [],
              potential_new_vertices = [], potential_new_vertices_check = [],
              temp_new_vertices = [], input_surfaces = [], count = 0,
              count_to_block = Map.empty, all_parsed_points = [],
              converged_vertices = Map.empty\<rparr> = Inr w1"
    and "i < length (potential_new_vertices w1)"
  shows "i < length (potential_new_vertices_check w1) \<and>
         potential_new_vertices w1 ! i < length (all_parsed_points w1) \<and>
         potential_new_vertices w1 ! i < length (temp_reindex w1)"
proof -
  have "in_block_step \<lparr>store = s, out = buffers, reindex = Map.empty, temp_reindex = [],
              potential_new_vertices = [], potential_new_vertices_check = [],
              temp_new_vertices = [], input_surfaces = [], count = 0,
              count_to_block = Map.empty, all_parsed_points = [],
              converged_vertices = Map.empty\<rparr>"
    by (simp add: in_block_step_def in_step_def)
  from parse_blocks_shape[OF this assms(1)] assms(2) show ?thesis
    by (auto simp: in_block_step_def in_step_def list_all_iff)
qed

section \<open>The bookkeeping invariant\<close>

lemma ran_upd_subset: "ran (m(k \<mapsto> v)) \<subseteq> insert v (ran m)"
  by (auto simp: ran_def)

lemma store_inv_times:
  "store_inv (s\<lparr>vertices_latest_time := ts\<rparr>) = store_inv s"
  by (simp add: store_inv_def adjacency_complete_def)

lemma store_inv_xyz:
  "store_inv (s\<lparr>active_vertices_xyz := xs\<rparr>) = store_inv s"
  by (simp add: store_inv_def adjacency_complete_def)

lemma classify_vertex_work_inv:
  assumes "work_inv w" and "classify_vertex h stamp N i p w = Inr w'"
  shows "work_inv w'"
proof (cases "checkIfVertexUnique h (active_vertices_xyz (store w)) (fst p)")
  case QueryFailed
  with assms show ?thesis by (simp add: classify_vertex_def)
next
  case Unique
  with assms show ?thesis
    by (auto simp: classify_vertex_def work_inv_def split: query.splits if_splits)
next
  case (Seen r)
  with assms(2) have r: "r < length (active_vertices_index (store w))"
    by (simp add: classify_vertex_def split: if_splits)
  then have "active_vertices_index (store w) ! r \<in> set (active_vertices_index (store w))"
    by simp
  with ran_upd_subset[of "reindex w" i "active_vertices_index (store w) ! r"] assms(1)
  have "ran ((reindex w)(i \<mapsto> active_vertices_index (store w) ! r))
          \<subseteq> set (active_vertices_index (store w))"
    by (auto simp: work_inv_def)
  with Seen assms show ?thesis
    by (auto simp: classify_vertex_def work_inv_def store_inv_times split: if_splits)
qed

lemma store_inv_push:
  assumes "store_inv s"
  shows "store_inv (s\<lparr>active_vertices_xyz := xs, all_vertices := all_vertices s @ [p],
            active_vertices_index := active_vertices_index s @ [length (all_vertices s)],
            vertices_latest_time := ts\<rparr>)"
proof -
  have pv: "\<And>t v. t \<in> set (polygons s) \<Longrightarrow> v \<in> set t \<Longrightarrow> v < length (all_vertices s)"
    using assms by (auto simp: store_inv_def list_all_iff)
  have av: "\<And>v. v \<in> set (active_vertices_index s) \<Longrightarrow> v < length (all_vertices s)"
    using assms by (auto simp: store_inv_def list_all_iff)
  have ac: "adjacency_complete s" using assms by (simp add: store_inv_def)
  have 1: "list_all (\<lambda>v. v < Suc (length (all_vertices s)))
             (active_vertices_index s @ [length (all_vertices s)])"
    using av by (auto simp: list_all_iff less_Suc_eq)
  have 2: "list_all (list_all (\<lambda>v. v < Suc (length (all_vertices s)))) (polygons s)"
    using pv by (auto simp: list_all_iff less_Suc_eq)
  have 3: "adjacency_complete (s\<lparr>active_vertices_xyz := xs, all_vertices := all_vertices s @ [p],
            active_vertices_index := active_vertices_index s @ [length (all_vertices s)],
            vertices_latest_time := ts\<rparr>)"
    unfolding adjacency_complete_def
  proof (intro allI impI ballI)
    fix j v
    assume j: "j < length (polygons (s\<lparr>active_vertices_xyz := xs, all_vertices := all_vertices s @ [p],
            active_vertices_index := active_vertices_index s @ [length (all_vertices s)],
            vertices_latest_time := ts\<rparr>))"
      and v: "v \<in> set (polygons (s\<lparr>active_vertices_xyz := xs, all_vertices := all_vertices s @ [p],
            active_vertices_index := active_vertices_index s @ [length (all_vertices s)],
            vertices_latest_time := ts\<rparr>) ! j)"
      and a: "v \<in> set (active_vertices_index (s\<lparr>active_vertices_xyz := xs, all_vertices := all_vertices s @ [p],
            active_vertices_index := active_vertices_index s @ [length (all_vertices s)],
            vertices_latest_time := ts\<rparr>))"
    from j v have "v < length (all_vertices s)" using pv[of "polygons s ! j" v] by simp
    with a have "v \<in> set (active_vertices_index s)" by auto
    with ac j v show "j \<in> set (map_subscript (adjacent_polygons (s\<lparr>active_vertices_xyz := xs, all_vertices := all_vertices s @ [p],
            active_vertices_index := active_vertices_index s @ [length (all_vertices s)],
            vertices_latest_time := ts\<rparr>)) v)"
      by (simp add: adjacency_complete_def)
  qed
  from 1 2 3 show ?thesis by (simp add: store_inv_def)
qed

lemma commit_vertex_work_inv:
  assumes "work_inv w"
  shows "case commit_vertex h stamp V i w of
           Inl (e, w') \<Rightarrow> work_inv w' | Inr w' \<Rightarrow> work_inv w'"
proof (cases "potential_new_vertices_check w ! i")
  case False
  with assms show ?thesis by (simp add: commit_vertex_def)
next
  case True
  from assms have si: "store_inv (store w)"
    and rn: "ran (reindex w) \<subseteq> set (active_vertices_index (store w))"
    by (simp_all add: work_inv_def)
  have rn': "ran ((reindex w)(k \<mapsto> length (all_vertices (store w))))
               \<subseteq> insert (length (all_vertices (store w))) (set (active_vertices_index (store w)))" for k
    using rn ran_upd_subset[of "reindex w" k "length (all_vertices (store w))"] by auto
  show ?thesis
  proof (cases "updateStructure h (active_vertices_xyz (store w) @ [fst (V ! (potential_new_vertices w ! i))])")
    case False
    with True si rn show ?thesis
      by (simp add: commit_vertex_def Let_def work_inv_def store_inv_xyz)
  next
    case upd: True
    with True rn' store_inv_push[OF si] show ?thesis
      by (simp add: commit_vertex_def Let_def work_inv_def)
  qed
qed

lemma foldl_push_adjacent:
  "set (map_subscript (foldl (push_adjacent k) adj vs) v) =
     set (map_subscript adj v) \<union> (if v \<in> set vs then {k} else {})"
  by (induction vs arbitrary: adj) (auto simp: push_adjacent_def map_subscript_def)

lemma reindex_found_ran: "set (reindex_found rx s) \<subseteq> ran rx"
  by (induction s) (auto simp: ran_def split: option.splits)

lemma store_inv_add_polygon:
  assumes "store_inv s" and "set r \<subseteq> set (active_vertices_index s)"
  shows "store_inv (s\<lparr>polygons := polygons s @ [r],
                      adjacent_polygons := foldl (push_adjacent (length (polygons s))) (adjacent_polygons s) r\<rparr>)"
proof -
  have av: "\<And>v. v \<in> set (active_vertices_index s) \<Longrightarrow> v < length (all_vertices s)"
    using assms by (auto simp: store_inv_def list_all_iff)
  have ac: "adjacency_complete s" using assms by (simp add: store_inv_def)
  have 1: "list_all (\<lambda>v. v < length (all_vertices s)) r"
    using av assms(2) by (auto simp: list_all_iff)
  have 3: "adjacency_complete (s\<lparr>polygons := polygons s @ [r],
                      adjacent_polygons := foldl (push_adjacent (length (polygons s))) (adjacent_polygons s) r\<rparr>)"
    using ac
    by (auto simp: adjacency_complete_def foldl_push_adjacent nth_append less_Suc_eq)
  from 1 3 assms(1) show ?thesis by (simp add: store_inv_def)
qed

lemma add_surface_work_inv:
  assumes "work_inv w"
  shows "work_inv (add_surface N s w)"
proof -
  have "set (reindex_found (reindex w) s) \<subseteq> set (active_vertices_index (store w))"
    using assms reindex_found_ran[of "reindex w" s] by (auto simp: work_inv_def)
  from store_inv_add_polygon[OF _ this] assms show ?thesis
    by (simp add: add_surface_def Let_def work_inv_def)
qed

lemma check_vertices_update_inv:
  "work_inv (w\<lparr>potential_new_vertices_check := chk, out := b\<rparr>) = work_inv w"
  by (simp add: work_inv_def)

text \<open>The shape of a call: where it is left, and what holds of the locals there.\<close>

lemma compressAndIntegrate_cases:
  assumes init: "P \<lparr>store = s, out = buffers, reindex = Map.empty, temp_reindex = [],
                   potential_new_vertices = [], potential_new_vertices_check = [],
                   temp_new_vertices = []\<rparr>"
    and cls0: "\<forall>i p w w'. P w \<longrightarrow>
                classify_vertex h stamp (length (all_vertices s)) i p w = Inr w' \<longrightarrow> P w'"
    and mid0: "\<forall>w chk. P w \<longrightarrow>
                P (w\<lparr>potential_new_vertices_check := chk, out := (out w)\<lparr>remapping := reindex w\<rparr>\<rparr>)"
    and com0: "\<forall>i w. P w \<longrightarrow>
                (case commit_vertex h stamp V i w of Inl (e, w') \<Rightarrow> P w' | Inr w' \<Rightarrow> P w')"
  shows "(compressAndIntegrate h s V S buffers stamp = (None, s, buffers) \<and>
            (length V < 3 \<or> length S = 0)) \<or>
         (\<exists>e w. P w \<and> compressAndIntegrate h s V S buffers stamp = (Some e, store w, out w)) \<or>
         (\<exists>w. P w \<and> compressAndIntegrate h s V S buffers stamp =
                 (None, store (add_surfaces (length (all_vertices s)) S w),
                        out (add_surfaces (length (all_vertices s)) S w)))"
proof (cases "length V < 3 \<or> length S = 0")
  case True
  then show ?thesis by (simp add: compressAndIntegrate_def)
next
  case False
  from cls0 have cls: "\<And>i p w w'. P w \<Longrightarrow>
                classify_vertex h stamp (length (all_vertices s)) i p w = Inr w' \<Longrightarrow> P w'"
    by blast
  from mid0 have mid: "\<And>w chk. P w \<Longrightarrow>
                P (w\<lparr>potential_new_vertices_check := chk, out := (out w)\<lparr>remapping := reindex w\<rparr>\<rparr>)"
    by blast
  from com0 have com: "\<And>i w. P w \<Longrightarrow>
                (case commit_vertex h stamp V i w of Inl (e, w') \<Rightarrow> P w' | Inr w' \<Rightarrow> P w')"
    by blast
  let ?N = "length (all_vertices s)"
  let ?w0 = "\<lparr>store = s, out = buffers, reindex = Map.empty, temp_reindex = [],
                   potential_new_vertices = [], potential_new_vertices_check = [],
                   temp_new_vertices = []\<rparr>"
  note r1 = classify_vertices_rule[where P = P and h = h and stamp = stamp and N = ?N
      and i = 0 and ps = V and w = ?w0, OF init cls]
  show ?thesis
  proof (cases "classify_vertices h stamp ?N 0 V ?w0")
    case (Inl ew)
    obtain e w where ew: "ew = (e, w)" by (cases ew)
    with r1 Inl have "P w" by simp
    with Inl ew False show ?thesis
      by (auto simp: compressAndIntegrate_def Let_def)
  next
    case (Inr w1)
    with r1 have p1: "P w1" by simp
    show ?thesis
    proof (cases "check_surfaces ?N (temp_reindex w1) S (potential_new_vertices_check w1)")
      case (Inl e)
      with Inr p1 False show ?thesis
        by (auto simp: compressAndIntegrate_def Let_def)
    next
      case chk: (Inr chk)
      let ?w2 = "w1\<lparr>potential_new_vertices_check := chk, out := (out w1)\<lparr>remapping := reindex w1\<rparr>\<rparr>"
      have p2: "P ?w2" using mid[OF p1] .
      note r3 = commit_vertices_rule[where P = P and h = h and stamp = stamp and V = V
          and js = "[0..<length (potential_new_vertices w1)]" and w = ?w2, OF p2 com]
      show ?thesis
      proof (cases "commit_vertices h stamp V [0..<length (potential_new_vertices w1)] ?w2")
        case (Inl ew)
        obtain e w where ew: "ew = (e, w)" by (cases ew)
        with r3 Inl have "P w" by simp
        with Inl ew Inr chk False show ?thesis
          by (auto simp: compressAndIntegrate_def Let_def)
      next
        case w3: (Inr w3)
        with r3 have "P w3" by simp
        with w3 Inr chk False show ?thesis
          by (auto simp: compressAndIntegrate_def Let_def)
      qed
    qed
  qed
qed

lemma add_surfaces_work_inv:
  assumes "work_inv w"
  shows "work_inv (add_surfaces N S w)"
  using assms by (rule add_surfaces_rule) (rule add_surface_work_inv)

lemma compressAndIntegrate_store_inv:
  assumes "store_inv s"
  shows "store_inv (fst (snd (compressAndIntegrate h s V S buffers stamp)))"
proof -
  let ?P = "work_inv :: ('a, 'b, nat \<rightharpoonup> nat) work \<Rightarrow> bool"
  have init: "?P \<lparr>store = s, out = buffers, reindex = Map.empty, temp_reindex = [],
                   potential_new_vertices = [], potential_new_vertices_check = [],
                   temp_new_vertices = []\<rparr>"
    using assms by (simp add: work_inv_def)
  have mid: "\<forall>w chk. ?P w \<longrightarrow>
                ?P (w\<lparr>potential_new_vertices_check := chk, out := (out w)\<lparr>remapping := reindex w\<rparr>\<rparr>)"
    by (simp add: work_inv_def)
  have fin: "work_inv w \<Longrightarrow> store_inv (store (add_surfaces N S w))"
    for w :: "('a, 'b, nat \<rightharpoonup> nat) work" and N S
    using add_surfaces_work_inv[of w N S] by (simp add: work_inv_def)
  have fin': "work_inv w \<Longrightarrow> store_inv (store w)" for w :: "('a, 'b, nat \<rightharpoonup> nat) work"
    by (simp add: work_inv_def)
  have cls: "\<forall>i p w w'. ?P w \<longrightarrow>
                classify_vertex h stamp (length (all_vertices s)) i p w = Inr w' \<longrightarrow> ?P w'"
    using classify_vertex_work_inv by blast
  have com: "\<forall>i w. ?P w \<longrightarrow>
                (case commit_vertex h stamp V i w of Inl (e, w') \<Rightarrow> ?P w' | Inr w' \<Rightarrow> ?P w')"
    using commit_vertex_work_inv by blast
  from compressAndIntegrate_cases[where P = ?P and S = S, OF init cls mid com]
  show ?thesis
    using assms fin fin' by auto
qed

lemma compressAndIntegrate_grown:
  assumes "compressAndIntegrate h s V S buffers stamp = (Some e, s', b')"
  shows "grown_from stamp s s'"
proof -
  let ?P = "\<lambda>w :: ('a, 'b, nat \<rightharpoonup> nat) work. grown_from stamp s (store w)"
  have init: "?P \<lparr>store = s, out = buffers, reindex = Map.empty, temp_reindex = [],
                   potential_new_vertices = [], potential_new_vertices_check = [],
                   temp_new_vertices = []\<rparr>"
    by (simp add: grown_from_refl)
  have mid: "\<forall>w chk. ?P w \<longrightarrow>
                ?P (w\<lparr>potential_new_vertices_check := chk, out := (out w)\<lparr>remapping := reindex w\<rparr>\<rparr>)"
    by simp
  have cls: "\<forall>i p w w'. ?P w \<longrightarrow>
                classify_vertex h stamp (length (all_vertices s)) i p w = Inr w' \<longrightarrow> ?P w'"
    using classify_vertex_grown by blast
  have com: "\<forall>i w. ?P w \<longrightarrow>
                (case commit_vertex h stamp V i w of Inl (e, w') \<Rightarrow> ?P w' | Inr w' \<Rightarrow> ?P w')"
    using commit_vertex_grown by blast
  from compressAndIntegrate_cases[where P = ?P and S = S, OF init cls mid com] assms
  show ?thesis by auto
qed

section \<open>The same for a mesh of blocks\<close>

lemma parse_block_vertices_rule:
  assumes "P w"
    and "\<And>i p w w'. P w \<Longrightarrow> classify_block_vertex h stamp N blk i p w = Inr w' \<Longrightarrow> P w'"
    and "\<And>i w w'. P w \<Longrightarrow> close_surface N i w = Inr w' \<Longrightarrow> P (w'\<lparr>count := Suc (count w')\<rparr>)"
  shows "case parse_block_vertices h stamp N blk i ps w of Inl (e, w') \<Rightarrow> P w' | Inr w' \<Rightarrow> P w'"
  using assms(1)
proof (induction ps arbitrary: i w)
  case Nil
  then show ?case by simp
next
  case (Cons p ps)
  show ?case
  proof (cases "classify_block_vertex h stamp N blk i p w")
    case (Inl e)
    with Cons.prems show ?thesis by simp
  next
    case (Inr w1)
    with Cons.prems assms(2) have p1: "P w1" by blast
    show ?thesis
    proof (cases "close_surface N i w1")
      case (Inl e)
      with Inr p1 show ?thesis by simp
    next
      case w2: (Inr w2)
      with p1 assms(3) have "P (w2\<lparr>count := Suc (count w2)\<rparr>)" by blast
      from Cons.IH[OF this] Inr w2 show ?thesis by simp
    qed
  qed
qed

lemma parse_blocks_rule:
  assumes "P w"
    and "\<And>blk i p w w'. P w \<Longrightarrow> classify_block_vertex h stamp N blk i p w = Inr w' \<Longrightarrow> P w'"
    and "\<And>i w w'. P w \<Longrightarrow> close_surface N i w = Inr w' \<Longrightarrow> P (w'\<lparr>count := Suc (count w')\<rparr>)"
    and "\<And>w blk. P w \<Longrightarrow> P (w\<lparr>out := (out w)\<lparr>remapping := map_insert (remapping (out w)) blk Map.empty\<rparr>\<rparr>)"
  shows "case parse_blocks h stamp N mbs w of Inl (e, w') \<Rightarrow> P w' | Inr w' \<Rightarrow> P w'"
  using assms(1)
proof (induction mbs arbitrary: w)
  case Nil
  then show ?case by simp
next
  case (Cons mb mbs)
  let ?w = "w\<lparr>out := (out w)\<lparr>remapping := map_insert (remapping (out w)) (block_index mb) Map.empty\<rparr>\<rparr>"
  have pw: "P ?w" using assms(4)[OF Cons.prems] .
  note r = parse_block_vertices_rule[where P = P and h = h and stamp = stamp and N = N
      and blk = "block_index mb" and i = 0 and ps = "block_points mb" and w = ?w, OF pw assms(2) assms(3)]
  show ?case
  proof (cases "length (block_points mb) mod 3 \<noteq> 0")
    case True
    with Cons.prems show ?thesis by simp
  next
    case False
    show ?thesis
    proof (cases "parse_block_vertices h stamp N (block_index mb) 0 (block_points mb) ?w")
      case (Inl ew)
      with r False show ?thesis by (simp split: prod.splits)
    next
      case (Inr w1)
      with r have "P w1" by simp
      from Cons.IH[OF this] Inr False show ?thesis by simp
    qed
  qed
qed

lemma commit_block_vertices_rule:
  assumes "P w"
    and "\<And>i w. P w \<Longrightarrow>
           (case commit_block_vertex h stamp i w of Inl (e, w') \<Rightarrow> P w' | Inr w' \<Rightarrow> P w')"
  shows "case commit_block_vertices h stamp js w of Inl (e, w') \<Rightarrow> P w' | Inr w' \<Rightarrow> P w'"
  using assms(1)
proof (induction js arbitrary: w)
  case Nil
  then show ?case by simp
next
  case (Cons i js)
  show ?case
  proof (cases "commit_block_vertex h stamp i w")
    case (Inl ew)
    with assms(2)[OF Cons.prems, of i] show ?thesis by (simp split: prod.splits)
  next
    case (Inr w1)
    with assms(2)[OF Cons.prems, of i] have "P w1" by simp
    from Cons.IH[OF this] Inr show ?thesis by simp
  qed
qed

lemma compressAndIntegrate_blocks_cases:
  assumes init: "P \<lparr>store = s, out = buffers, reindex = Map.empty, temp_reindex = [],
              potential_new_vertices = [], potential_new_vertices_check = [],
              temp_new_vertices = [], input_surfaces = [], count = 0,
              count_to_block = Map.empty, all_parsed_points = [],
              converged_vertices = Map.empty\<rparr>"
    and cls0: "\<forall>blk i p w w'. P w \<longrightarrow>
                classify_block_vertex h stamp (length (all_vertices s)) blk i p w = Inr w' \<longrightarrow> P w'"
    and clo0: "\<forall>i w w'. P w \<longrightarrow> close_surface (length (all_vertices s)) i w = Inr w' \<longrightarrow>
                P (w'\<lparr>count := Suc (count w')\<rparr>)"
    and key0: "\<forall>w blk. P w \<longrightarrow>
                P (w\<lparr>out := (out w)\<lparr>remapping := map_insert (remapping (out w)) blk Map.empty\<rparr>\<rparr>)"
    and com0: "\<forall>i w. P w \<longrightarrow>
                (case commit_block_vertex h stamp i w of Inl (e, w') \<Rightarrow> P w' | Inr w' \<Rightarrow> P w')"
  shows "(\<exists>e w. P w \<and> compressAndIntegrate_blocks h s mbs buffers stamp = (Some e, store w, out w)) \<or>
         (\<exists>w. P w \<and> compressAndIntegrate_blocks h s mbs buffers stamp =
                 (None, store (add_surfaces (length (all_vertices s)) (input_surfaces w) w),
                        out (add_surfaces (length (all_vertices s)) (input_surfaces w) w)))"
proof -
  from cls0 have cls: "\<And>blk i p w w'. P w \<Longrightarrow>
                classify_block_vertex h stamp (length (all_vertices s)) blk i p w = Inr w' \<Longrightarrow> P w'"
    by blast
  from clo0 have clo: "\<And>i w w'. P w \<Longrightarrow> close_surface (length (all_vertices s)) i w = Inr w' \<Longrightarrow>
                P (w'\<lparr>count := Suc (count w')\<rparr>)"
    by blast
  from key0 have key: "\<And>w blk. P w \<Longrightarrow>
                P (w\<lparr>out := (out w)\<lparr>remapping := map_insert (remapping (out w)) blk Map.empty\<rparr>\<rparr>)"
    by blast
  from com0 have com: "\<And>i w. P w \<Longrightarrow>
                (case commit_block_vertex h stamp i w of Inl (e, w') \<Rightarrow> P w' | Inr w' \<Rightarrow> P w')"
    by blast
  let ?N = "length (all_vertices s)"
  let ?w0 = "\<lparr>store = s, out = buffers, reindex = Map.empty, temp_reindex = [],
              potential_new_vertices = [], potential_new_vertices_check = [],
              temp_new_vertices = [], input_surfaces = [], count = 0,
              count_to_block = Map.empty, all_parsed_points = [],
              converged_vertices = Map.empty\<rparr>"
  note r1 = parse_blocks_rule[where P = P and h = h and stamp = stamp and N = ?N
      and mbs = mbs and w = ?w0, OF init cls clo key]
  show ?thesis
  proof (cases "parse_blocks h stamp ?N mbs ?w0")
    case (Inl ew)
    obtain e w where ew: "ew = (e, w)" by (cases ew)
    with r1 Inl have "P w" by simp
    with Inl ew show ?thesis
      by (auto simp: compressAndIntegrate_blocks_def Let_def)
  next
    case (Inr w1)
    with r1 have p1: "P w1" by simp
    note r3 = commit_block_vertices_rule[where P = P and h = h and stamp = stamp
          and js = "[0..<length (potential_new_vertices w1)]" and w = w1, OF p1 com]
    show ?thesis
    proof (cases "commit_block_vertices h stamp [0..<length (potential_new_vertices w1)] w1")
      case (Inl ew)
      obtain e w where ew: "ew = (e, w)" by (cases ew)
      with r3 Inl have "P w" by simp
      with Inl ew Inr show ?thesis
        by (auto simp: compressAndIntegrate_blocks_def Let_def)
    next
      case w3: (Inr w3)
      with r3 have "P w3" by simp
      with w3 Inr show ?thesis
        by (auto simp: compressAndIntegrate_blocks_def Let_def)
    qed
  qed
qed

lemma classify_block_vertex_work_inv:
  assumes "work_inv w" and "classify_block_vertex h stamp N blk i p w = Inr w'"
  shows "work_inv w'"
  using assms
  by (auto simp: classify_block_vertex_def Let_def work_inv_def store_inv_times
           split: query.splits if_splits)

lemma classify_block_vertex_grown:
  assumes "grown_from stamp s (store w)" and "classify_block_vertex h stamp N blk i p w = Inr w'"
  shows "grown_from stamp s (store w')"
  using assms
  by (auto simp: classify_block_vertex_def Let_def grown_from_def list_all_iff nth_list_update
           split: query.splits if_splits)

lemma close_surface_frame:
  assumes "close_surface N i w = Inr w'"
  shows "store w' = store w \<and> reindex w' = reindex w \<and> out w' = out w"
  using assms
  by (auto simp: close_surface_def Let_def simp del: reindex_at.simps
           split: if_splits sum.splits)

lemma commit_converged_ran:
  "commit_converged tr c2b input_idx v ms (rx, rm) = Inr (rx', rm') \<Longrightarrow>
     ran rx' \<subseteq> insert v (ran rx)"
proof (induction ms arbitrary: rx rm)
  case Nil
  then show ?case by auto
next
  case (Cons m ms)
  from Cons.prems obtain rm1 where
    1: "commit_converged tr c2b input_idx v ms (rx(m \<mapsto> v), rm1) = Inr (rx', rm')"
    by (auto split: if_splits sum.splits)
  from Cons.IH[OF 1] ran_upd_subset[of rx m v] show ?case by blast
qed

lemma commit_block_vertex_work_inv:
  assumes "work_inv w"
  shows "case commit_block_vertex h stamp i w of
           Inl (e, w') \<Rightarrow> work_inv w' | Inr w' \<Rightarrow> work_inv w'"
proof (cases "potential_new_vertices_check w ! i")
  case False
  with assms show ?thesis by (simp add: commit_block_vertex_def)
next
  case True
  let ?idx = "potential_new_vertices w ! i"
  let ?p = "all_parsed_points w ! ?idx"
  let ?v = "length (all_vertices (store w))"
  from assms have si: "store_inv (store w)"
    and rn: "ran (reindex w) \<subseteq> set (active_vertices_index (store w))"
    by (simp_all add: work_inv_def)
  have rn': "ran ((reindex w)(?idx \<mapsto> ?v)) \<subseteq> insert ?v (set (active_vertices_index (store w)))"
    using rn ran_upd_subset[of "reindex w" ?idx ?v] by auto
  show ?thesis
  proof (cases "updateStructure h (active_vertices_xyz (store w) @ [fst ?p])")
    case False
    with True si rn show ?thesis
      by (simp add: commit_block_vertex_def Let_def work_inv_def store_inv_xyz)
  next
    case upd: True
    show ?thesis
    proof (cases "block_insert (remapping (out w)) (count_to_block w ?idx) ?v")
      case (Inl e)
      with True upd rn' store_inv_push[OF si] show ?thesis
        by (simp add: commit_block_vertex_def Let_def work_inv_def)
    next
      case (Inr rm)
      show ?thesis
      proof (cases "commit_converged (temp_reindex w) (count_to_block w) ?idx ?v
                      (map_subscript (converged_vertices w) ?idx) ((reindex w)(?idx \<mapsto> ?v), rm)")
        case (Inl e)
        with Inr True upd rn' store_inv_push[OF si] show ?thesis
          by (simp add: commit_block_vertex_def Let_def work_inv_def)
      next
        case cc: (Inr pr)
        obtain rx' rm' where pr: "pr = (rx', rm')" by (cases pr)
        from commit_converged_ran[OF cc[unfolded pr]] rn'
        have "ran rx' \<subseteq> insert ?v (set (active_vertices_index (store w)))" by auto
        with cc pr Inr True upd store_inv_push[OF si] show ?thesis
          by (simp add: commit_block_vertex_def Let_def work_inv_def)
      qed
    qed
  qed
qed

lemma commit_block_vertex_grown:
  assumes "grown_from stamp s (store w)"
  shows "case commit_block_vertex h stamp i w of
           Inl (e, w') \<Rightarrow> grown_from stamp s (store w') | Inr w' \<Rightarrow> grown_from stamp s (store w')"
  using assms
  by (auto simp: commit_block_vertex_def grown_from_def list_all_iff nth_append Let_def prefix_snoc
           split: if_splits sum.splits)

lemma compressAndIntegrate_blocks_store_inv:
  assumes "store_inv s"
  shows "store_inv (fst (snd (compressAndIntegrate_blocks h s mbs buffers stamp)))"
proof -
  let ?P = "work_inv :: ('a, 'b, 'c) block_work \<Rightarrow> bool"
  have init: "?P \<lparr>store = s, out = buffers, reindex = Map.empty, temp_reindex = [],
              potential_new_vertices = [], potential_new_vertices_check = [],
              temp_new_vertices = [], input_surfaces = [], count = 0,
              count_to_block = Map.empty, all_parsed_points = [],
              converged_vertices = Map.empty\<rparr>"
    using assms by (simp add: work_inv_def)
  have cls: "\<forall>blk i p w w'. ?P w \<longrightarrow>
                classify_block_vertex h stamp (length (all_vertices s)) blk i p w = Inr w' \<longrightarrow> ?P w'"
    by (intro allI impI) (erule (1) classify_block_vertex_work_inv)
  have clo: "\<forall>i w w'. ?P w \<longrightarrow> close_surface (length (all_vertices s)) i w = Inr w' \<longrightarrow>
                ?P (w'\<lparr>count := Suc (count w')\<rparr>)"
    using close_surface_frame by (fastforce simp: work_inv_def)
  have key: "\<forall>w blk. ?P w \<longrightarrow>
                ?P (w\<lparr>out := (out w)\<lparr>remapping := map_insert (remapping (out w)) blk Map.empty\<rparr>\<rparr>)"
    by (simp add: work_inv_def)
  have com: "\<forall>i w. ?P w \<longrightarrow>
                (case commit_block_vertex h stamp i w of Inl (e, w') \<Rightarrow> ?P w' | Inr w' \<Rightarrow> ?P w')"
    by (intro allI impI) (erule commit_block_vertex_work_inv)
  have fin: "work_inv w \<Longrightarrow> store_inv (store (add_surfaces N S w))"
    for w :: "('a, 'b, 'c) block_work" and N S
    using add_surfaces_work_inv[of w N S] by (simp add: work_inv_def)
  have fin': "work_inv w \<Longrightarrow> store_inv (store w)" for w :: "('a, 'b, 'c) block_work"
    by (simp add: work_inv_def)
  from compressAndIntegrate_blocks_cases[where P = ?P and mbs = mbs, OF init cls clo key com]
  show ?thesis
    using fin fin' by auto
qed

lemma compressAndIntegrate_blocks_grown:
  assumes "compressAndIntegrate_blocks h s mbs buffers stamp = (Some e, s', b')"
  shows "grown_from stamp s s'"
proof -
  let ?P = "\<lambda>w :: ('a, 'b, 'c) block_work. grown_from stamp s (store w)"
  have init: "?P \<lparr>store = s, out = buffers, reindex = Map.empty, temp_reindex = [],
              potential_new_vertices = [], potential_new_vertices_check = [],
              temp_new_vertices = [], input_surfaces = [], count = 0,
              count_to_block = Map.empty, all_parsed_points = [],
              converged_vertices = Map.empty\<rparr>"
    by (simp add: grown_from_refl)
  have cls: "\<forall>blk i p w w'. ?P w \<longrightarrow>
                classify_block_vertex h stamp (length (all_vertices s)) blk i p w = Inr w' \<longrightarrow> ?P w'"
    by (intro allI impI) (erule (1) classify_block_vertex_grown)
  have clo: "\<forall>i w w'. ?P w \<longrightarrow> close_surface (length (all_vertices s)) i w = Inr w' \<longrightarrow>
                ?P (w'\<lparr>count := Suc (count w')\<rparr>)"
    using close_surface_frame by fastforce
  have key: "\<forall>w blk. ?P w \<longrightarrow>
                ?P (w\<lparr>out := (out w)\<lparr>remapping := map_insert (remapping (out w)) blk Map.empty\<rparr>\<rparr>)"
    by simp
  have com: "\<forall>i w. ?P w \<longrightarrow>
                (case commit_block_vertex h stamp i w of Inl (e, w') \<Rightarrow> ?P w' | Inr w' \<Rightarrow> ?P w')"
    by (intro allI impI) (erule commit_block_vertex_grown)
  from compressAndIntegrate_blocks_cases[where P = ?P and mbs = mbs, OF init cls clo key com] assms
  show ?thesis by auto
qed

section \<open>Reachable stores\<close>

lemma map_subscript_restrict:
  "map_subscript (\<lambda>v. if P v then Some (map_subscript adj v) else None) v =
     (if P v then map_subscript adj v else [])"
  by (simp add: map_subscript_def)

lemma map_subscript_touched:
  "map_subscript (\<lambda>v. if P v \<and> adj v = None then Some [] else adj v) v = map_subscript adj v"
  by (simp add: map_subscript_def)

lemma prune_store_inv:
  assumes "store_inv s" and "snd (pruneStoredMesh h s t) = Inr s'"
  shows "store_inv s'"
proof (cases "active_vertices_xyz s = []")
  case True
  with assms show ?thesis by (simp add: pruneStoredMesh_def)
next
  case False
  have inb: "\<forall>i\<in>set (survivors s t).
             i < length (active_vertices_xyz s) \<and> i < length (active_vertices_index s)"
  proof (rule ccontr)
    assume "\<not> ?thesis"
    from prune_ub[OF this False] assms(2) show False by simp
  qed
  have sub: "set (map (nth (active_vertices_index s)) (survivors s t)) \<subseteq> set (active_vertices_index s)"
    using inb by auto
  have av: "\<And>v. v \<in> set (active_vertices_index s) \<Longrightarrow> v < length (all_vertices s)"
    using assms(1) by (auto simp: store_inv_def list_all_iff)
  have ac: "adjacency_complete s" using assms(1) by (simp add: store_inv_def)
  have pv: "list_all (list_all (\<lambda>v. v < length (all_vertices s))) (polygons s)"
    using assms(1) by (simp add: store_inv_def)
  show ?thesis
  proof (cases "length (survivors s t) < length (active_vertices_xyz s)")
    case True
    with prune_result[OF inb False, of h] assms(2)
    have s': "s' = s\<lparr>active_vertices_xyz := map (nth (active_vertices_xyz s)) (survivors s t),
          vertices_latest_time := map (nth (vertices_latest_time s)) (survivors s t),
          active_vertices_index := map (nth (active_vertices_index s)) (survivors s t),
          adjacent_polygons :=
            (\<lambda>v. if v \<in> set (map (nth (active_vertices_index s)) (survivors s t))
                 then Some (map_subscript (adjacent_polygons s) v) else None)\<rparr>"
      by simp
    have 1: "list_all (\<lambda>v. v < length (all_vertices s)) (map (nth (active_vertices_index s)) (survivors s t))"
      using sub av unfolding list_all_iff by blast
    have 3: "adjacency_complete s'"
      unfolding adjacency_complete_def s' using ac sub
      by (auto simp: adjacency_complete_def map_subscript_restrict)
    from 1 pv 3 show ?thesis by (simp add: store_inv_def s')
  next
    case nodrop: False
    with prune_result[OF inb False, of h] assms(2)
    have s': "s' = s\<lparr>adjacent_polygons :=
            (\<lambda>v. if v \<in> set (map (nth (active_vertices_index s)) (survivors s t)) \<and>
                    adjacent_polygons s v = None
                 then Some [] else adjacent_polygons s v)\<rparr>"
      by simp
    have 3: "adjacency_complete s'"
      unfolding adjacency_complete_def s' using ac
      by (simp add: adjacency_complete_def map_subscript_touched)
    from assms(1) 3 show ?thesis by (simp add: store_inv_def s')
  qed
qed

lemma empty_store_inv: "store_inv empty_store"
  by (simp add: store_inv_def empty_store_def adjacency_complete_def)

lemma reachable_store_inv: "reachable h s \<Longrightarrow> store_inv s"
proof (induction rule: reachable.induct)
  case constructed
  show ?case by (rule empty_store_inv)
next
  case (flat_batch s V S buffers stamp)
  then show ?case by (simp add: compressAndIntegrate_store_inv)
next
  case (block_batch s mbs buffers stamp)
  then show ?case by (simp add: compressAndIntegrate_blocks_store_inv)
next
  case (pruned s t s')
  then show ?case using prune_store_inv by blast
qed

section \<open>The lengths of the active arrays\<close>

text \<open>
  In every store a compressor can be in, the time array and the active-to-all array
  have the same length, and the position list is at least as long: a commit pushes the
  position first, and the other two after \<^verbatim>\<open>updateStructure\<close> has returned.
\<close>

lemma classify_vertex_lengths:
  assumes "lengths_inv (store w)" and "classify_vertex h stamp N i p w = Inr w'"
  shows "lengths_inv (store w')"
  using assms
  by (auto simp: classify_vertex_def lengths_inv_def split: query.splits if_splits)

lemma commit_vertex_lengths:
  assumes "lengths_inv (store w)"
  shows "case commit_vertex h stamp V i w of
           Inl (e, w') \<Rightarrow> lengths_inv (store w') | Inr w' \<Rightarrow> lengths_inv (store w')"
  using assms
  by (auto simp: commit_vertex_def lengths_inv_def Let_def split: if_splits)

lemma add_surface_lengths:
  "lengths_inv (store w) \<Longrightarrow> lengths_inv (store (add_surface N s w))"
  by (simp add: add_surface_def lengths_inv_def Let_def)

lemma add_surfaces_lengths:
  assumes "lengths_inv (store w)"
  shows "lengths_inv (store (add_surfaces N S w))"
  using assms by (rule add_surfaces_rule[where P = "\<lambda>w. lengths_inv (store w)"]) (rule add_surface_lengths)

lemma compressAndIntegrate_lengths:
  assumes "lengths_inv s"
  shows "lengths_inv (fst (snd (compressAndIntegrate h s V S buffers stamp)))"
proof -
  let ?P = "\<lambda>w :: ('a, 'b, nat \<rightharpoonup> nat) work. lengths_inv (store w)"
  have init: "?P \<lparr>store = s, out = buffers, reindex = Map.empty, temp_reindex = [],
                   potential_new_vertices = [], potential_new_vertices_check = [],
                   temp_new_vertices = []\<rparr>"
    using assms by simp
  have mid: "\<forall>w chk. ?P w \<longrightarrow>
                ?P (w\<lparr>potential_new_vertices_check := chk, out := (out w)\<lparr>remapping := reindex w\<rparr>\<rparr>)"
    by simp
  have cls: "\<forall>i p w w'. ?P w \<longrightarrow>
                classify_vertex h stamp (length (all_vertices s)) i p w = Inr w' \<longrightarrow> ?P w'"
    using classify_vertex_lengths by blast
  have com: "\<forall>i w. ?P w \<longrightarrow>
                (case commit_vertex h stamp V i w of Inl (e, w') \<Rightarrow> ?P w' | Inr w' \<Rightarrow> ?P w')"
    using commit_vertex_lengths by blast
  from compressAndIntegrate_cases[where P = ?P and S = S, OF init cls mid com]
  show ?thesis
    using assms add_surfaces_lengths by auto
qed

lemma classify_block_vertex_lengths:
  assumes "lengths_inv (store w)" and "classify_block_vertex h stamp N blk i p w = Inr w'"
  shows "lengths_inv (store w')"
  using assms
  by (auto simp: classify_block_vertex_def Let_def lengths_inv_def split: query.splits if_splits)

lemma commit_block_vertex_lengths:
  assumes "lengths_inv (store w)"
  shows "case commit_block_vertex h stamp i w of
           Inl (e, w') \<Rightarrow> lengths_inv (store w') | Inr w' \<Rightarrow> lengths_inv (store w')"
  using assms
  by (auto simp: commit_block_vertex_def lengths_inv_def Let_def split: if_splits sum.splits)

lemma compressAndIntegrate_blocks_lengths:
  assumes "lengths_inv s"
  shows "lengths_inv (fst (snd (compressAndIntegrate_blocks h s mbs buffers stamp)))"
proof -
  let ?P = "\<lambda>w :: ('a, 'b, 'c) block_work. lengths_inv (store w)"
  have init: "?P \<lparr>store = s, out = buffers, reindex = Map.empty, temp_reindex = [],
              potential_new_vertices = [], potential_new_vertices_check = [],
              temp_new_vertices = [], input_surfaces = [], count = 0,
              count_to_block = Map.empty, all_parsed_points = [],
              converged_vertices = Map.empty\<rparr>"
    using assms by simp
  have cls: "\<forall>blk i p w w'. ?P w \<longrightarrow>
                classify_block_vertex h stamp (length (all_vertices s)) blk i p w = Inr w' \<longrightarrow> ?P w'"
    by (intro allI impI) (erule (1) classify_block_vertex_lengths)
  have clo: "\<forall>i w w'. ?P w \<longrightarrow> close_surface (length (all_vertices s)) i w = Inr w' \<longrightarrow>
                ?P (w'\<lparr>count := Suc (count w')\<rparr>)"
    using close_surface_frame by fastforce
  have key: "\<forall>w blk. ?P w \<longrightarrow>
                ?P (w\<lparr>out := (out w)\<lparr>remapping := map_insert (remapping (out w)) blk Map.empty\<rparr>\<rparr>)"
    by simp
  have com: "\<forall>i w. ?P w \<longrightarrow>
                (case commit_block_vertex h stamp i w of Inl (e, w') \<Rightarrow> ?P w' | Inr w' \<Rightarrow> ?P w')"
    by (intro allI impI) (erule commit_block_vertex_lengths)
  from compressAndIntegrate_blocks_cases[where P = ?P and mbs = mbs, OF init cls clo key com]
  show ?thesis
    using add_surfaces_lengths by auto
qed

lemma lengths_inv_survivors:
  assumes "lengths_inv s"
  shows "\<forall>i\<in>set (survivors s t).
             i < length (active_vertices_xyz s) \<and> i < length (active_vertices_index s)"
  using assms by (simp add: lengths_inv_def survivors_def newer_def)

lemma prune_lengths:
  assumes "lengths_inv s" and "snd (pruneStoredMesh h s t) = Inr s'"
  shows "lengths_inv s'"
proof (cases "active_vertices_xyz s = []")
  case True
  with assms show ?thesis by (simp add: pruneStoredMesh_def)
next
  case False
  from prune_result[OF lengths_inv_survivors[OF assms(1)] False, of h] assms
  show ?thesis by (auto simp: lengths_inv_def split: if_splits)
qed

lemma reachable_lengths: "reachable h s \<Longrightarrow> lengths_inv s"
proof (induction rule: reachable.induct)
  case constructed
  show ?case by (simp add: lengths_inv_def empty_store_def)
next
  case (flat_batch s V S buffers stamp)
  then show ?case by (simp add: compressAndIntegrate_lengths)
next
  case (block_batch s mbs buffers stamp)
  then show ?case by (simp add: compressAndIntegrate_blocks_lengths)
next
  case (pruned s t s')
  then show ?case using prune_lengths by blast
qed

section \<open>Evaluating the model on concrete batches\<close>

lemmas flat_eval =
  compressAndIntegrate_def grid_hooks_def cell3_def empty_store_def empty_buffers_def
  classify_vertex_def check_surface_def degenerate_def commit_vertex_def insert_converged_def
  map_insert_def add_surfaces_def add_surface_def push_if_absent_def SurfaceExists_def
  map_subscript_def push_adjacent_def Let_def

lemmas block_eval =
  compressAndIntegrate_blocks_def grid_hooks_def cell3_def empty_store_def empty_buffers_def
  classify_block_vertex_def close_surface_def degenerate_def commit_block_vertex_def block_insert_def
  map_insert_def map_touch_def add_surfaces_def add_surface_def push_if_absent_def SurfaceExists_def
  map_subscript_def push_adjacent_def Let_def

lemma orphan_store_reached:
  "fst (snd (compressAndIntegrate (grid_hooks cell3) empty_store converged_batch [[1, 2, 3]]
       empty_buffers 1)) = orphan_store"
  by (simp add: flat_eval converged_batch_def orphan_store_def)

lemma orphan_store_reachable: "reachable (grid_hooks cell3) orphan_store"
  using flat_batch[OF constructed, of "grid_hooks cell3" converged_batch "[[1, 2, 3]]" empty_buffers 1]
  by (simp only: orphan_store_reached)

lemma misaligned_store_reached:
  "fst (snd (compressAndIntegrate failing_cell_hooks empty_store insert_failure_batch [[0, 1, 2]]
       empty_buffers 1)) = misaligned_store"
  by (simp add: flat_eval failing_cell_hooks_def insert_failure_batch_def misaligned_store_def)

lemma misaligned_store_reachable: "reachable failing_cell_hooks misaligned_store"
  using flat_batch[OF constructed, of failing_cell_hooks insert_failure_batch "[[0, 1, 2]]" empty_buffers 1]
  by (simp only: misaligned_store_reached)

section \<open>Claims about compressAndIntegrate\<close>

text \<open>
  Claim C1 says that every vertex id appended to \<^verbatim>\<open>all_vertices_\<close> during a call is
  referenced by a triangle appended during the same call. The flat variant breaks it on
  \<open>converged_batch\<close> with the single face \<open>(1, 2, 3)\<close> on a new compressor: input 1
  converges onto the provisional vertex of input 0, the face passes the first pass, the
  three provisional vertices are committed, and the second pass drops the face because
  input 1 has no \<^verbatim>\<open>reindex\<close> entry. Three vertices are committed and no triangle is.
\<close>

theorem committed_without_triangle:
  "fst (compressAndIntegrate (grid_hooks cell3) empty_store converged_batch [[1, 2, 3]]
         empty_buffers 1) = None \<and>
   new_vertices (snd (snd (compressAndIntegrate (grid_hooks cell3) empty_store converged_batch
         [[1, 2, 3]] empty_buffers 1))) = [((0, 0, 0), ()), ((2, 0, 0), ()), ((0, 2, 0), ())] \<and>
   all_vertices (fst (snd (compressAndIntegrate (grid_hooks cell3) empty_store converged_batch
         [[1, 2, 3]] empty_buffers 1))) = [((0, 0, 0), ()), ((2, 0, 0), ()), ((0, 2, 0), ())] \<and>
   new_triangles (snd (snd (compressAndIntegrate (grid_hooks cell3) empty_store converged_batch
         [[1, 2, 3]] empty_buffers 1))) = [] \<and>
   polygons (fst (snd (compressAndIntegrate (grid_hooks cell3) empty_store converged_batch
         [[1, 2, 3]] empty_buffers 1))) = []"
  by (simp add: flat_eval converged_batch_def)

text \<open>
  Claim C2 says that an input vertex that converged onto a provisional vertex committed
  as \<open>v\<close> is mapped to \<open>v\<close> by the returned remapping. The flat variant breaks it on
  \<open>two_converged_batch\<close> with the face \<open>(0, 2, 4)\<close>: input 3 converged onto provisional
  slot 1 (input 2), which is committed as vertex id 1, and the remapping sends input 3 to
  vertex id 2.
\<close>

theorem converged_input_remapped_wrongly:
  "fst (compressAndIntegrate (grid_hooks cell3) empty_store two_converged_batch [[0, 2, 4]]
         empty_buffers 1) = None \<and>
   checkIfVertexTempUnique (grid_hooks cell3) [(0, 0, 0), (2, 0, 0)] (21 / 10, 0, 0) = Seen 1 \<and>
   new_indices (snd (snd (compressAndIntegrate (grid_hooks cell3) empty_store two_converged_batch
         [[0, 2, 4]] empty_buffers 1))) = [0, 1, 2] \<and>
   map (remapping (snd (snd (compressAndIntegrate (grid_hooks cell3) empty_store two_converged_batch
         [[0, 2, 4]] empty_buffers 1)))) [0, 1, 2, 3, 4] = [Some 0, Some 0, Some 1, Some 2, Some 2]"
  by (simp add: flat_eval two_converged_batch_def)

text \<open>
  Claim C5 says that submitting the same batch twice with the same stamp leaves the
  store as the first call left it, the second call returning no new triangle.
  \<open>orphan_store\<close> is the store after \<open>converged_batch\<close> with the face \<open>(1, 2, 3)\<close> at
  stamp 1 (lemma \<open>orphan_store_reached\<close>); the same batch at the same stamp then adds
  the triangle \<open>(0, 1, 2)\<close>.
\<close>

theorem resubmission_adds_a_triangle:
  "polygons orphan_store = [] \<and>
   fst (compressAndIntegrate (grid_hooks cell3) orphan_store converged_batch [[1, 2, 3]]
         empty_buffers 1) = None \<and>
   new_triangles (snd (snd (compressAndIntegrate (grid_hooks cell3) orphan_store converged_batch
         [[1, 2, 3]] empty_buffers 1))) = [[0, 1, 2]] \<and>
   polygons (fst (snd (compressAndIntegrate (grid_hooks cell3) orphan_store converged_batch
         [[1, 2, 3]] empty_buffers 1))) = [[0, 1, 2]]"
  by (simp add: flat_eval converged_batch_def orphan_store_def)

section \<open>Claims about pruneStoredMesh\<close>

text \<open>
  Claim C4 says that \<^verbatim>\<open>pruneStoredMesh\<close> removes exactly the active slots whose last-seen
  time is not later than the cutoff, leaves \<^verbatim>\<open>all_vertices_\<close>, \<^verbatim>\<open>polygons_\<close> and the vertex
  ids as they are, and is a no-op when no slot would be dropped. The code breaks the
  last part on the store that the flat batch \<open>converged_batch\<close> with the single face
  \<open>(1, 2, 3)\<close> leaves on a new compressor: \<open>orphan_store\<close>, with three active vertices
  that no triangle names and that have no adjacency entry. Every last-seen time is
  later than the cutoff 0, so no slot is dropped, and yet the call is not a no-op: the
  subscript \<^verbatim>\<open>adjacent_polygons_[active_vertices_index_[i]]\<close> of line 428 has given the
  vertex id 0 the empty entry. A vertex that a call commits together with a triangle
  has an adjacency entry; on such stores, and whenever a slot is dropped, pruning does
  what the claim says (lemmas \<open>prune_parallel_arrays\<close> and \<open>prune_keyed_noop\<close>).
\<close>

theorem prune_not_a_noop:
  "fst (snd (compressAndIntegrate (grid_hooks cell3) empty_store converged_batch [[1, 2, 3]]
       empty_buffers 1)) = orphan_store \<and>
   survivors orphan_store 0 = [0, 1, 2] \<and>
   length (active_vertices_xyz orphan_store) = 3 \<and>
   adjacent_polygons orphan_store 0 = None \<and>
   map_option (\<lambda>s'. adjacent_polygons s' 0)
     (case snd (pruneStoredMesh (grid_hooks cell3) orphan_store 0) of
        Inl e \<Rightarrow> None | Inr s' \<Rightarrow> Some s') = Some (Some []) \<and>
   snd (pruneStoredMesh (grid_hooks cell3) orphan_store 0) \<noteq> Inr orphan_store"
proof -
  have a: "survivors orphan_store 0 = [0, 1, 2]"
    by (simp add: survivors_def newer_def orphan_store_def)
  have b: "adjacent_polygons orphan_store 0 = None"
    by (simp add: orphan_store_def)
  have c: "map_option (\<lambda>s'. adjacent_polygons s' 0)
     (case snd (pruneStoredMesh (grid_hooks cell3) orphan_store 0) of
        Inl e \<Rightarrow> None | Inr s' \<Rightarrow> Some s') = Some (Some [])"
    by (simp add: prune_eval orphan_store_def)
  have d: "snd (pruneStoredMesh (grid_hooks cell3) orphan_store 0) \<noteq> Inr orphan_store"
  proof
    assume "snd (pruneStoredMesh (grid_hooks cell3) orphan_store 0) = Inr orphan_store"
    with c have "adjacent_polygons orphan_store 0 = Some []" by simp
    with b show False by simp
  qed
  have l: "length (active_vertices_xyz orphan_store) = 3" by (simp add: orphan_store_def)
  from orphan_store_reached a b c d l show ?thesis by simp
qed

text \<open>
  Claim C7. In every store a compressor can be in whose active-position list differs in
  length from the time array or from the active-to-all array, \<^verbatim>\<open>pruneStoredMesh\<close>
  writes to the log and goes on: the length of the time array, which bounds its loop,
  is the minimum of the three lengths, no subscript is past the end of its array (the
  call returns a store), and the store is cut down to the slots below that minimum
  whose last-seen time is later than the cutoff.
\<close>

theorem prune_stale_bookkeeping:
  assumes "reachable h s"
    and "length (vertices_latest_time s) \<noteq> length (active_vertices_xyz s) \<or>
         length (active_vertices_index s) \<noteq> length (active_vertices_xyz s)"
  shows "fst (pruneStoredMesh h s t) \<noteq> [] \<and>
     length (vertices_latest_time s) =
       min (length (active_vertices_xyz s))
         (min (length (vertices_latest_time s)) (length (active_vertices_index s))) \<and>
     snd (pruneStoredMesh h s t) = Inr
       (s\<lparr>active_vertices_xyz := map (nth (active_vertices_xyz s)) (survivors s t),
          vertices_latest_time := map (nth (vertices_latest_time s)) (survivors s t),
          active_vertices_index := map (nth (active_vertices_index s)) (survivors s t),
          adjacent_polygons :=
            (\<lambda>v. if v \<in> set (map (nth (active_vertices_index s)) (survivors s t))
                 then Some (map_subscript (adjacent_polygons s) v) else None)\<rparr>)"
proof -
  from reachable_lengths[OF assms(1)] have li: "lengths_inv s" .
  with assms(2) have lt: "length (vertices_latest_time s) < length (active_vertices_xyz s)"
    and eq: "length (vertices_latest_time s) = length (active_vertices_index s)"
    by (auto simp: lengths_inv_def)
  from lt have ne: "active_vertices_xyz s \<noteq> []" by auto
  from survivors_length[of s t] lt
  have drop: "length (survivors s t) < length (active_vertices_xyz s)" by simp
  from prune_result[OF lengths_inv_survivors[OF li] ne, of h] drop
  have r: "snd (pruneStoredMesh h s t) = Inr
       (s\<lparr>active_vertices_xyz := map (nth (active_vertices_xyz s)) (survivors s t),
          vertices_latest_time := map (nth (vertices_latest_time s)) (survivors s t),
          active_vertices_index := map (nth (active_vertices_index s)) (survivors s t),
          adjacent_polygons :=
            (\<lambda>v. if v \<in> set (map (nth (active_vertices_index s)) (survivors s t))
                 then Some (map_subscript (adjacent_polygons s) v) else None)\<rparr>)"
    by simp
  from lt eq have m: "length (vertices_latest_time s) =
       min (length (active_vertices_xyz s))
         (min (length (vertices_latest_time s)) (length (active_vertices_index s)))"
    by simp
  from prune_log[OF ne assms(2)] m r show ?thesis by blast
qed

theorem prune_stale_bookkeeping_witness:
  "reachable failing_cell_hooks misaligned_store \<and>
   length (active_vertices_xyz misaligned_store) = 2 \<and>
   length (vertices_latest_time misaligned_store) = 1 \<and>
   length (active_vertices_index misaligned_store) = 1 \<and>
   fst (pruneStoredMesh failing_cell_hooks misaligned_store 0) \<noteq> [] \<and>
   survivors misaligned_store 0 = [0] \<and>
   (case snd (pruneStoredMesh failing_cell_hooks misaligned_store 0) of
      Inl e \<Rightarrow> False
    | Inr s' \<Rightarrow>
        active_vertices_xyz s' = [(0, 0, 0)] \<and> vertices_latest_time s' = [1] \<and>
        active_vertices_index s' = [0] \<and> adjacent_polygons s' 0 = Some [] \<and>
        all_vertices s' = all_vertices misaligned_store \<and> polygons s' = [])"
  using prune_stale_bookkeeping [where s = misaligned_store and t = 0 and h = failing_cell_hooks,
      OF misaligned_store_reachable]
    misaligned_store_reachable
  by (simp add: misaligned_store_def survivors_def newer_def map_subscript_def)

section \<open>The indices a call reports\<close>

lemma classify_vertex_fresh:
  assumes "fresh_indices w" and "classify_vertex h stamp N i p w = Inr w'"
  shows "fresh_indices w'"
  using assms
  by (auto simp: classify_vertex_def fresh_indices_def push_if_absent_def list_all_iff
           split: query.splits if_splits)

lemma classify_block_vertex_fresh:
  assumes "fresh_indices w" and "classify_block_vertex h stamp N blk i p w = Inr w'"
  shows "fresh_indices w'"
  using assms
  by (auto simp: classify_block_vertex_def Let_def fresh_indices_def push_if_absent_def list_all_iff
           split: query.splits if_splits)

lemma fresh_indices_push:
  assumes "fresh_indices w"
  shows "distinct (new_indices (out w) @ [length (all_vertices (store w))]) \<and>
         list_all (\<lambda>v. v < Suc (length (all_vertices (store w))))
           (new_indices (out w) @ [length (all_vertices (store w))]) \<and>
         list_all (\<lambda>v. v < Suc (length (all_vertices (store w))))
           (active_vertices_index (store w) @ [length (all_vertices (store w))])"
  using assms by (auto simp: fresh_indices_def list_all_iff less_Suc_eq)

lemma commit_vertex_fresh:
  assumes "fresh_indices w"
  shows "case commit_vertex h stamp V i w of
           Inl (e, w') \<Rightarrow> fresh_indices w' | Inr w' \<Rightarrow> fresh_indices w'"
  using assms fresh_indices_push[OF assms]
  by (simp add: commit_vertex_def Let_def fresh_indices_def)

lemma commit_block_vertex_fresh:
  assumes "fresh_indices w"
  shows "case commit_block_vertex h stamp i w of
           Inl (e, w') \<Rightarrow> fresh_indices w' | Inr w' \<Rightarrow> fresh_indices w'"
  using assms fresh_indices_push[OF assms]
  by (simp add: commit_block_vertex_def Let_def fresh_indices_def split: sum.splits prod.splits)

lemma add_surface_out:
  "new_indices (out (add_surface N s w)) = new_indices (out w) \<and>
   new_vertices (out (add_surface N s w)) = new_vertices (out w) \<and>
   remapping (out (add_surface N s w)) = remapping (out w)"
  by (simp add: add_surface_def Let_def)

lemma add_surfaces_out:
  "new_indices (out (add_surfaces N S w)) = new_indices (out w) \<and>
   new_vertices (out (add_surfaces N S w)) = new_vertices (out w) \<and>
   remapping (out (add_surfaces N S w)) = remapping (out w)"
  unfolding add_surfaces_def
  by (induction S arbitrary: w) (simp_all add: add_surface_out)

text \<open>
  Claim C10. In every store a compressor can be in, a call of \<^verbatim>\<open>compressAndIntegrate\<close>
  that starts with an empty \<^verbatim>\<open>new_indices\<close> buffer leaves no entry twice in it, whether
  it returns or is left by an exception: a re-observed vertex id is pushed only if
  absent, and a committed vertex id is the length of \<^verbatim>\<open>all_vertices_\<close> at that moment,
  larger than every id pushed before. This holds for the flat and for the block variant.
\<close>

theorem new_indices_distinct:
  assumes "reachable h s" and "new_indices buffers = []" and "new_indices block_buffers = []"
  shows "distinct (new_indices (snd (snd (compressAndIntegrate h s V S buffers stamp)))) \<and>
         distinct (new_indices (snd (snd (compressAndIntegrate_blocks h s mbs block_buffers stamp))))"
proof
  from reachable_store_inv[OF assms(1)]
  have ids: "list_all (\<lambda>v. v < length (all_vertices s)) (active_vertices_index s)"
    by (simp add: store_inv_def)
  show "distinct (new_indices (snd (snd (compressAndIntegrate h s V S buffers stamp))))"
  proof -
    let ?P = "fresh_indices :: ('a, 'b, nat \<rightharpoonup> nat) work \<Rightarrow> bool"
    have init: "?P \<lparr>store = s, out = buffers, reindex = Map.empty, temp_reindex = [],
                     potential_new_vertices = [], potential_new_vertices_check = [],
                     temp_new_vertices = []\<rparr>"
      using ids assms(2) by (simp add: fresh_indices_def)
    have cls: "\<forall>i p w w'. ?P w \<longrightarrow>
                  classify_vertex h stamp (length (all_vertices s)) i p w = Inr w' \<longrightarrow> ?P w'"
      by (intro allI impI) (erule (1) classify_vertex_fresh)
    have mid: "\<forall>w chk. ?P w \<longrightarrow>
                  ?P (w\<lparr>potential_new_vertices_check := chk, out := (out w)\<lparr>remapping := reindex w\<rparr>\<rparr>)"
      by (simp add: fresh_indices_def)
    have com: "\<forall>i w. ?P w \<longrightarrow>
                  (case commit_vertex h stamp V i w of Inl (e, w') \<Rightarrow> ?P w' | Inr w' \<Rightarrow> ?P w')"
      by (intro allI impI) (erule commit_vertex_fresh)
    from compressAndIntegrate_cases[where P = ?P and S = S, OF init cls mid com] assms(2)
    show ?thesis
      by (auto simp: fresh_indices_def add_surfaces_out)
  qed
  show "distinct (new_indices (snd (snd (compressAndIntegrate_blocks h s mbs block_buffers stamp))))"
  proof -
    let ?P = "fresh_indices :: ('a, 'b, 'c) block_work \<Rightarrow> bool"
    have init: "?P \<lparr>store = s, out = block_buffers, reindex = Map.empty, temp_reindex = [],
                potential_new_vertices = [], potential_new_vertices_check = [],
                temp_new_vertices = [], input_surfaces = [], count = 0,
                count_to_block = Map.empty, all_parsed_points = [],
                converged_vertices = Map.empty\<rparr>"
      using ids assms(3) by (simp add: fresh_indices_def)
    have cls: "\<forall>blk i p w w'. ?P w \<longrightarrow>
                  classify_block_vertex h stamp (length (all_vertices s)) blk i p w = Inr w' \<longrightarrow> ?P w'"
      by (intro allI impI) (erule (1) classify_block_vertex_fresh)
    have clo: "\<forall>i w w'. ?P w \<longrightarrow> close_surface (length (all_vertices s)) i w = Inr w' \<longrightarrow>
                  ?P (w'\<lparr>count := Suc (count w')\<rparr>)"
      using close_surface_frame by (fastforce simp: fresh_indices_def)
    have key: "\<forall>w blk. ?P w \<longrightarrow>
                  ?P (w\<lparr>out := (out w)\<lparr>remapping := map_insert (remapping (out w)) blk Map.empty\<rparr>\<rparr>)"
      by (simp add: fresh_indices_def)
    have com: "\<forall>i w. ?P w \<longrightarrow>
                  (case commit_block_vertex h stamp i w of Inl (e, w') \<Rightarrow> ?P w' | Inr w' \<Rightarrow> ?P w')"
      by (intro allI impI) (erule commit_block_vertex_fresh)
    from compressAndIntegrate_blocks_cases[where P = ?P and mbs = mbs, OF init cls clo key com]
    show ?thesis
      by (auto simp: fresh_indices_def add_surfaces_out)
  qed
qed

theorem new_indices_distinct_witness:
  "reachable (grid_hooks cell3) orphan_store \<and>
   new_indices (snd (snd (compressAndIntegrate (grid_hooks cell3) orphan_store revisit_batch
         [[1, 2, 3]] empty_buffers 2))) = [0, 3, 4, 5] \<and>
   distinct (new_indices (snd (snd (compressAndIntegrate (grid_hooks cell3) orphan_store
         revisit_batch [[1, 2, 3]] empty_buffers 2)))) \<and>
   new_indices (snd (snd (compressAndIntegrate_blocks (grid_hooks cell3) orphan_store
         revisit_blocks empty_buffers 2))) = [0, 1, 2] \<and>
   distinct (new_indices (snd (snd (compressAndIntegrate_blocks (grid_hooks cell3) orphan_store
         revisit_blocks empty_buffers 2))))"
proof -
  have a: "new_indices (snd (snd (compressAndIntegrate (grid_hooks cell3) orphan_store revisit_batch
         [[1, 2, 3]] empty_buffers 2))) = [0, 3, 4, 5]"
    by (simp add: flat_eval revisit_batch_def orphan_store_def)
  have b: "new_indices (snd (snd (compressAndIntegrate_blocks (grid_hooks cell3) orphan_store
         revisit_blocks empty_buffers 2))) = [0, 1, 2]"
    by (simp add: block_eval revisit_blocks_def orphan_store_def)
  have c: "new_indices (empty_buffers :: (real \<times> real \<times> real, unit, nat \<rightharpoonup> nat) outputs) = []"
    "new_indices (empty_buffers ::
       (real \<times> real \<times> real, unit, int \<times> int \<times> int \<rightharpoonup> (nat \<rightharpoonup> nat)) outputs) = []"
    by (simp_all add: empty_buffers_def)
  from new_indices_distinct[OF orphan_store_reachable c, of revisit_batch "[[1, 2, 3]]" 2 revisit_blocks]
    orphan_store_reachable a b
  show ?thesis by simp
qed

section \<open>The remapping a call returns\<close>

lemma classify_vertex_reindex:
  assumes "classify_vertex h stamp N i p w = Inr w'"
  shows "active_vertices_xyz (store w') = active_vertices_xyz (store w) \<and>
         active_vertices_index (store w') = active_vertices_index (store w) \<and>
         (\<forall>k. k \<noteq> i \<longrightarrow> reindex w' k = reindex w k) \<and>
         (\<forall>r. checkIfVertexUnique h (active_vertices_xyz (store w)) (fst p) = Seen r \<longrightarrow>
              reindex w' i = Some (active_vertices_index (store w) ! r))"
  using assms
  by (auto simp: classify_vertex_def split: query.splits if_splits)

lemma classify_vertices_reindex:
  assumes "classify_vertices h stamp N i ps w = Inr w'"
  shows "active_vertices_xyz (store w') = active_vertices_xyz (store w) \<and>
         active_vertices_index (store w') = active_vertices_index (store w) \<and>
         (\<forall>k<i. reindex w' k = reindex w k) \<and>
         (\<forall>j<length ps. \<forall>r.
            checkIfVertexUnique h (active_vertices_xyz (store w)) (fst (ps ! j)) = Seen r \<longrightarrow>
            reindex w' (i + j) = Some (active_vertices_index (store w) ! r))"
  using assms
proof (induction ps arbitrary: i w)
  case Nil
  then show ?case by simp
next
  case (Cons p ps)
  from Cons.prems obtain w1 where
    1: "classify_vertex h stamp N i p w = Inr w1"
    and 2: "classify_vertices h stamp N (Suc i) ps w1 = Inr w'"
    by (auto split: sum.splits)
  note s1 = classify_vertex_reindex[OF 1]
  note ih = Cons.IH[OF 2]
  from s1 ih have a: "active_vertices_xyz (store w') = active_vertices_xyz (store w)"
    and b: "active_vertices_index (store w') = active_vertices_index (store w)"
    by simp_all
  have c: "\<forall>k<i. reindex w' k = reindex w k"
    using s1 ih by auto
  have d: "\<forall>j<length (p # ps). \<forall>r.
            checkIfVertexUnique h (active_vertices_xyz (store w)) (fst ((p # ps) ! j)) = Seen r \<longrightarrow>
            reindex w' (i + j) = Some (active_vertices_index (store w) ! r)"
  proof (intro allI impI)
    fix j r
    assume j: "j < length (p # ps)"
      and q: "checkIfVertexUnique h (active_vertices_xyz (store w)) (fst ((p # ps) ! j)) = Seen r"
    show "reindex w' (i + j) = Some (active_vertices_index (store w) ! r)"
    proof (cases j)
      case 0
      with q s1 have "reindex w1 i = Some (active_vertices_index (store w) ! r)" by simp
      moreover from ih have "reindex w' i = reindex w1 i" by simp
      ultimately show ?thesis using 0 by simp
    next
      case (Suc j')
      with j q s1 ih show ?thesis by simp
    qed
  qed
  from a b c d show ?case by blast
qed

lemma map_insert_keeps: "m k = Some v \<Longrightarrow> map_insert m k' v' k = Some v"
  by (cases "m k'") (auto simp: map_insert_def)

lemma insert_converged_keeps:
  "rm k = Some v \<Longrightarrow> insert_converged tr input_idx i v' rm k = Some v"
proof -
  have "rm k = Some v \<Longrightarrow>
        fold (\<lambda>m rm'. if input_idx \<noteq> m \<and> tr ! i = tr ! m then map_insert rm' m v' else rm') ms rm k
          = Some v" for ms
    by (induction ms arbitrary: rm) (simp_all add: map_insert_keeps)
  then show "rm k = Some v \<Longrightarrow> insert_converged tr input_idx i v' rm k = Some v"
    by (simp add: insert_converged_def)
qed

lemma commit_vertex_keeps:
  assumes "remapping (out w) k = Some v"
  shows "case commit_vertex h stamp V i w of
           Inl (e, w') \<Rightarrow> remapping (out w') k = Some v | Inr w' \<Rightarrow> remapping (out w') k = Some v"
  using assms
  by (simp add: commit_vertex_def Let_def insert_converged_keeps map_insert_keeps)

lemma commit_vertices_keeps:
  assumes "remapping (out w) k = Some v" and "commit_vertices h stamp V js w = Inr w'"
  shows "remapping (out w') k = Some v"
proof -
  let ?P = "\<lambda>w :: ('a, 'b, nat \<rightharpoonup> nat) work. remapping (out w) k = Some v"
  from commit_vertices_rule[where P = ?P and w = w and h = h and stamp = stamp and V = V and js = js,
      OF assms(1) commit_vertex_keeps] assms(2)
  show ?thesis by simp
qed

text \<open>A call that returns has gone through the four passes.\<close>

lemma compressAndIntegrate_returns:
  assumes "compressAndIntegrate h s V S buffers stamp = (None, s', b')"
    and "3 \<le> length V" and "S \<noteq> []"
  shows "\<exists>w1 chk w3.
     classify_vertices h stamp (length (all_vertices s)) 0 V
        \<lparr>store = s, out = buffers, reindex = Map.empty, temp_reindex = [],
         potential_new_vertices = [], potential_new_vertices_check = [],
         temp_new_vertices = []\<rparr> = Inr w1 \<and>
     check_surfaces (length (all_vertices s)) (temp_reindex w1) S (potential_new_vertices_check w1)
        = Inr chk \<and>
     commit_vertices h stamp V [0..<length (potential_new_vertices w1)]
        (w1\<lparr>potential_new_vertices_check := chk, out := (out w1)\<lparr>remapping := reindex w1\<rparr>\<rparr>) = Inr w3 \<and>
     s' = store (add_surfaces (length (all_vertices s)) S w3) \<and>
     b' = out (add_surfaces (length (all_vertices s)) S w3)"
  using assms
  by (auto simp: compressAndIntegrate_def Let_def split: sum.splits prod.splits)

text \<open>
  Claim C8. When the flat \<^verbatim>\<open>compressAndIntegrate\<close> goes through its passes (at least
  three vertices, at least one face) and returns, every input vertex \<open>i\<close> for which the
  query of the main index reports a slot \<open>r\<close> (a re-observation) is mapped by the
  returned remapping to \<^verbatim>\<open>active_vertices_index_[r]\<close> as it was on entry. No condition
  on the faces is needed: the entry is there also when no surviving triangle names \<open>i\<close>.
\<close>

theorem reobservation_in_remapping:
  assumes "compressAndIntegrate h s V S buffers stamp = (None, s', b')"
    and "3 \<le> length V" and "S \<noteq> []"
    and "i < length V"
    and "checkIfVertexUnique h (active_vertices_xyz s) (fst (V ! i)) = Seen r"
  shows "remapping b' i = Some (active_vertices_index s ! r)"
proof -
  from compressAndIntegrate_returns[OF assms(1-3)] obtain w1 chk w3 where
    1: "classify_vertices h stamp (length (all_vertices s)) 0 V
        \<lparr>store = s, out = buffers, reindex = Map.empty, temp_reindex = [],
         potential_new_vertices = [], potential_new_vertices_check = [],
         temp_new_vertices = []\<rparr> = Inr w1"
    and 3: "commit_vertices h stamp V [0..<length (potential_new_vertices w1)]
        (w1\<lparr>potential_new_vertices_check := chk, out := (out w1)\<lparr>remapping := reindex w1\<rparr>\<rparr>) = Inr w3"
    and b': "b' = out (add_surfaces (length (all_vertices s)) S w3)"
    by blast
  from classify_vertices_reindex[OF 1] assms(4,5)
  have "reindex w1 i = Some (active_vertices_index s ! r)" by simp
  then have "remapping (out (w1\<lparr>potential_new_vertices_check := chk,
                 out := (out w1)\<lparr>remapping := reindex w1\<rparr>\<rparr>)) i = Some (active_vertices_index s ! r)"
    by simp
  from commit_vertices_keeps[OF this 3] show ?thesis
    by (simp add: b' add_surfaces_out)
qed

theorem reobservation_in_remapping_witness:
  "fst (compressAndIntegrate (grid_hooks cell3) orphan_store revisit_batch [[1, 2, 3]]
         empty_buffers 2) = None \<and>
   checkIfVertexUnique (grid_hooks cell3) (active_vertices_xyz orphan_store)
     (fst (revisit_batch ! 0)) = Seen 0 \<and>
   remapping (snd (snd (compressAndIntegrate (grid_hooks cell3) orphan_store revisit_batch
         [[1, 2, 3]] empty_buffers 2))) 0 = Some (active_vertices_index orphan_store ! 0) \<and>
   new_triangles (snd (snd (compressAndIntegrate (grid_hooks cell3) orphan_store revisit_batch
         [[1, 2, 3]] empty_buffers 2))) = [[3, 4, 5]]"
proof -
  have e: "fst (compressAndIntegrate (grid_hooks cell3) orphan_store revisit_batch [[1, 2, 3]]
         empty_buffers 2) = None"
    by (simp add: flat_eval revisit_batch_def orphan_store_def)
  then have r: "compressAndIntegrate (grid_hooks cell3) orphan_store revisit_batch [[1, 2, 3]]
         empty_buffers 2 =
       (None,
        fst (snd (compressAndIntegrate (grid_hooks cell3) orphan_store revisit_batch [[1, 2, 3]]
         empty_buffers 2)),
        snd (snd (compressAndIntegrate (grid_hooks cell3) orphan_store revisit_batch [[1, 2, 3]]
         empty_buffers 2)))"
    by (simp add: prod_eq_iff)
  have q: "checkIfVertexUnique (grid_hooks cell3) (active_vertices_xyz orphan_store)
     (fst (revisit_batch ! 0)) = Seen 0"
    by (simp add: grid_hooks_def cell3_def revisit_batch_def orphan_store_def)
  have l: "3 \<le> length revisit_batch" "[[1, 2, 3 :: nat]] \<noteq> []" "0 < length revisit_batch"
    by (simp_all add: revisit_batch_def)
  have t: "new_triangles (snd (snd (compressAndIntegrate (grid_hooks cell3) orphan_store revisit_batch
         [[1, 2, 3]] empty_buffers 2))) = [[3, 4, 5]]"
    by (simp add: flat_eval revisit_batch_def orphan_store_def)
  from reobservation_in_remapping[OF r l q] e q t show ?thesis by simp
qed

lemma dom_map_insert: "dom (map_insert m k v) = insert k (dom m)"
  by (cases "m k") (auto simp: map_insert_def)

lemma classify_block_vertex_out:
  assumes "classify_block_vertex h stamp N blk i p w = Inr w'"
  shows "remapping (out w') = remapping (out w)"
  using assms
  by (auto simp: classify_block_vertex_def Let_def split: query.splits if_splits)

lemma block_insert_dom:
  assumes "block_insert rm cb v = Inr rm'"
  shows "dom rm \<subseteq> dom rm'"
  using assms
  by (auto simp: block_insert_def split: option.splits prod.splits)

lemma commit_converged_dom:
  "commit_converged tr c2b input_idx v ms (rx, rm) = Inr (rx', rm') \<Longrightarrow> dom rm \<subseteq> dom rm'"
proof (induction ms arbitrary: rx rm)
  case Nil
  then show ?case by auto
next
  case (Cons m ms)
  from Cons.prems obtain rm1 where
    0: "block_insert rm (c2b m) v = Inr rm1"
    and 1: "commit_converged tr c2b input_idx v ms (rx(m \<mapsto> v), rm1) = Inr (rx', rm')"
    by (auto split: if_splits sum.splits)
  from Cons.IH[OF 1] block_insert_dom[OF 0] show ?case by blast
qed

lemma commit_block_vertex_dom:
  assumes "K \<subseteq> dom (remapping (out w))"
  shows "case commit_block_vertex h stamp i w of
           Inl (e, w') \<Rightarrow> K \<subseteq> dom (remapping (out w'))
         | Inr w' \<Rightarrow> K \<subseteq> dom (remapping (out w'))"
proof (cases "commit_block_vertex h stamp i w")
  case (Inl ew)
  obtain e w'' where ew: "ew = (e, w'')" by (cases ew)
  with Inl have "out w'' = out w"
    by (auto simp: commit_block_vertex_def Let_def split: if_splits sum.splits prod.splits)
  with Inl ew assms show ?thesis by simp
next
  case (Inr w')
  have "dom (remapping (out w)) \<subseteq> dom (remapping (out w'))"
  proof (cases "potential_new_vertices_check w ! i")
    case False
    with Inr show ?thesis by (simp add: commit_block_vertex_def)
  next
    case True
    with Inr obtain rm rx' rm' where
      a: "block_insert (remapping (out w)) (count_to_block w (potential_new_vertices w ! i))
            (length (all_vertices (store w))) = Inr rm"
      and b: "commit_converged (temp_reindex w) (count_to_block w) (potential_new_vertices w ! i)
            (length (all_vertices (store w)))
            (map_subscript (converged_vertices w) (potential_new_vertices w ! i))
            ((reindex w)(potential_new_vertices w ! i \<mapsto> length (all_vertices (store w))), rm)
            = Inr (rx', rm')"
      and c: "remapping (out w') = rm'"
      by (auto simp: commit_block_vertex_def Let_def split: if_splits sum.splits prod.splits)
    from block_insert_dom[OF a] commit_converged_dom[OF b] c show ?thesis by blast
  qed
  with Inr assms show ?thesis by auto
qed

lemma commit_block_vertices_dom:
  assumes "K \<subseteq> dom (remapping (out w))" and "commit_block_vertices h stamp js w = Inr w'"
  shows "K \<subseteq> dom (remapping (out w'))"
proof -
  let ?P = "\<lambda>w :: (_, _, _) block_work. K \<subseteq> dom (remapping (out w))"
  from commit_block_vertices_rule[where P = ?P and w = w and h = h and stamp = stamp and js = js,
      OF assms(1) commit_block_vertex_dom] assms(2)
  show ?thesis by simp
qed

lemma parse_block_vertices_dom:
  assumes "K \<subseteq> dom (remapping (out w))"
    and "parse_block_vertices h stamp N blk i ps w = Inr w'"
  shows "K \<subseteq> dom (remapping (out w'))"
proof -
  let ?P = "\<lambda>w :: (_, _, _) block_work. K \<subseteq> dom (remapping (out w))"
  have cls: "\<And>i p w w'. ?P w \<Longrightarrow> classify_block_vertex h stamp N blk i p w = Inr w' \<Longrightarrow> ?P w'"
    using classify_block_vertex_out by fastforce
  have clo: "\<And>i w w'. ?P w \<Longrightarrow> close_surface N i w = Inr w' \<Longrightarrow> ?P (w'\<lparr>count := Suc (count w')\<rparr>)"
    using close_surface_frame by fastforce
  from parse_block_vertices_rule[where P = ?P and w = w and h = h and stamp = stamp and N = N
      and blk = blk and i = i and ps = ps, OF assms(1) cls clo] assms(2)
  show ?thesis by simp
qed

lemma parse_blocks_dom:
  assumes "parse_blocks h stamp N mbs w = Inr w'"
  shows "dom (remapping (out w)) \<union> block_index ` set mbs \<subseteq> dom (remapping (out w'))"
  using assms
proof (induction mbs arbitrary: w)
  case Nil
  then show ?case by simp
next
  case (Cons mb mbs)
  let ?w = "w\<lparr>out := (out w)\<lparr>remapping := map_insert (remapping (out w)) (block_index mb) Map.empty\<rparr>\<rparr>"
  from Cons.prems obtain w1 where
    1: "parse_block_vertices h stamp N (block_index mb) 0 (block_points mb) ?w = Inr w1"
    and 2: "parse_blocks h stamp N mbs w1 = Inr w'"
    by (auto split: if_splits sum.splits)
  have "insert (block_index mb) (dom (remapping (out w))) \<subseteq> dom (remapping (out ?w))"
    by (simp add: dom_map_insert)
  from parse_block_vertices_dom[OF this 1] Cons.IH[OF 2] show ?case by auto
qed

lemma compressAndIntegrate_blocks_returns:
  assumes "compressAndIntegrate_blocks h s mbs buffers stamp = (None, s', b')"
  shows "\<exists>w1 w2.
     parse_blocks h stamp (length (all_vertices s)) mbs
        \<lparr>store = s, out = buffers, reindex = Map.empty, temp_reindex = [],
         potential_new_vertices = [], potential_new_vertices_check = [],
         temp_new_vertices = [], input_surfaces = [], count = 0,
         count_to_block = Map.empty, all_parsed_points = [],
         converged_vertices = Map.empty\<rparr> = Inr w1 \<and>
     commit_block_vertices h stamp [0..<length (potential_new_vertices w1)] w1 = Inr w2 \<and>
     s' = store (add_surfaces (length (all_vertices s)) (input_surfaces w2) w2) \<and>
     b' = out (add_surfaces (length (all_vertices s)) (input_surfaces w2) w2)"
  using assms
  by (auto simp: compressAndIntegrate_blocks_def Let_def split: sum.splits prod.splits)

text \<open>
  Claim C9. When the block variant of \<^verbatim>\<open>compressAndIntegrate\<close> returns, every block index
  of the input mesh is a key of the returned block remapping. In the witness no vertex
  is committed and the inner map of the empty block \<open>(1, 0, 0)\<close> is empty.
\<close>

theorem block_remapping_has_every_block:
  assumes "compressAndIntegrate_blocks h s mbs buffers stamp = (None, s', b')"
  shows "block_index ` set mbs \<subseteq> dom (remapping b')"
proof -
  from compressAndIntegrate_blocks_returns[OF assms] obtain w1 w2 where
    1: "parse_blocks h stamp (length (all_vertices s)) mbs
        \<lparr>store = s, out = buffers, reindex = Map.empty, temp_reindex = [],
         potential_new_vertices = [], potential_new_vertices_check = [],
         temp_new_vertices = [], input_surfaces = [], count = 0,
         count_to_block = Map.empty, all_parsed_points = [],
         converged_vertices = Map.empty\<rparr> = Inr w1"
    and 2: "commit_block_vertices h stamp [0..<length (potential_new_vertices w1)] w1 = Inr w2"
    and b': "b' = out (add_surfaces (length (all_vertices s)) (input_surfaces w2) w2)"
    by blast
  from parse_blocks_dom[OF 1] have "block_index ` set mbs \<subseteq> dom (remapping (out w1))" by simp
  from commit_block_vertices_dom[OF this 2] show ?thesis
    by (simp add: b' add_surfaces_out)
qed

theorem block_remapping_has_every_block_witness:
  "fst (compressAndIntegrate_blocks (grid_hooks cell3) orphan_store revisit_blocks
         empty_buffers 2) = None \<and>
   block_index ` set revisit_blocks \<subseteq>
     dom (remapping (snd (snd (compressAndIntegrate_blocks (grid_hooks cell3) orphan_store
         revisit_blocks empty_buffers 2)))) \<and>
   new_vertices (snd (snd (compressAndIntegrate_blocks (grid_hooks cell3) orphan_store
         revisit_blocks empty_buffers 2))) = [] \<and>
   map_option (\<lambda>inner. map inner [0, 1, 2])
     (remapping (snd (snd (compressAndIntegrate_blocks (grid_hooks cell3) orphan_store
         revisit_blocks empty_buffers 2))) (1, 0, 0)) = Some [None, None, None]"
proof -
  have e: "fst (compressAndIntegrate_blocks (grid_hooks cell3) orphan_store revisit_blocks
         empty_buffers 2) = None"
    by (simp add: block_eval revisit_blocks_def orphan_store_def)
  then have r: "compressAndIntegrate_blocks (grid_hooks cell3) orphan_store revisit_blocks
         empty_buffers 2 =
       (None,
        fst (snd (compressAndIntegrate_blocks (grid_hooks cell3) orphan_store revisit_blocks
         empty_buffers 2)),
        snd (snd (compressAndIntegrate_blocks (grid_hooks cell3) orphan_store revisit_blocks
         empty_buffers 2)))"
    by (simp add: prod_eq_iff)
  have v: "new_vertices (snd (snd (compressAndIntegrate_blocks (grid_hooks cell3) orphan_store
         revisit_blocks empty_buffers 2))) = []"
    by (simp add: block_eval revisit_blocks_def orphan_store_def)
  have m: "map_option (\<lambda>inner. map inner [0, 1, 2])
     (remapping (snd (snd (compressAndIntegrate_blocks (grid_hooks cell3) orphan_store
         revisit_blocks empty_buffers 2))) (1, 0, 0)) = Some [None, None, None]"
    by (simp add: block_eval revisit_blocks_def orphan_store_def)
  from block_remapping_has_every_block[OF r] e v m show ?thesis by simp
qed

section \<open>Failures\<close>

text \<open>
  Where a flat call is left when a hook throws. The exception of a query leaves the
  call at the input vertex whose classification made it, with the store as the vertices
  before it have left it: only last-seen times have been written. The exception of
  \<^verbatim>\<open>updateStructure\<close> leaves the call after the position has been pushed.
\<close>

lemma classify_vertices_append:
  "classify_vertices h stamp N i (xs @ ys) w =
     (case classify_vertices h stamp N i xs w of
        Inl ew \<Rightarrow> Inl ew
      | Inr w' \<Rightarrow> classify_vertices h stamp N (i + length xs) ys w')"
  by (induction xs arbitrary: i w) (simp_all split: sum.splits)

lemma commit_vertices_append:
  "commit_vertices h stamp V (xs @ ys) w =
     (case commit_vertices h stamp V xs w of
        Inl ew \<Rightarrow> Inl ew
      | Inr w' \<Rightarrow> commit_vertices h stamp V ys w')"
  by (induction xs arbitrary: w) (simp_all split: sum.splits)

lemma query_fails_classify:
  "query_fails h w (fst p) \<Longrightarrow> classify_vertex h stamp N i p w = Inl SpatialIndexFailure"
  by (auto simp: query_fails_def classify_vertex_def split: query.splits)

lemma classify_vertices_fails_at:
  assumes "j < length V"
    and "classify_vertices h stamp N 0 (take j V) w0 = Inr w"
    and "classify_vertex h stamp N j (V ! j) w = Inl e"
  shows "classify_vertices h stamp N 0 V w0 = Inl (e, w)"
proof -
  from assms(1) have V: "V = take j V @ V ! j # drop (Suc j) V"
    by (simp add: id_take_nth_drop)
  have "classify_vertices h stamp N 0 (take j V @ V ! j # drop (Suc j) V) w0 = Inl (e, w)"
    using assms by (simp add: classify_vertices_append min_def)
  with V show ?thesis by simp
qed

lemma query_failure_surfaced:
  assumes "3 \<le> length V" and "S \<noteq> []" and "j < length V"
    and "classified_upto h s V buffers stamp j = Inr w"
    and "query_fails h w (fst (V ! j))"
  shows "compressAndIntegrate h s V S buffers stamp = (Some SpatialIndexFailure, store w, out w)"
proof -
  from classify_vertices_fails_at[OF assms(3) assms(4)[unfolded classified_upto_def]
      query_fails_classify[OF assms(5)]]
  have "classify_vertices h stamp (length (all_vertices s)) 0 V (start s buffers)
          = Inl (SpatialIndexFailure, w)" .
  with assms(1,2) show ?thesis
    by (simp add: compressAndIntegrate_def start_def Let_def)
qed

lemma classify_vertex_times:
  assumes "classify_vertex h stamp N i p w = Inr w'"
  shows "store w' = (store w)\<lparr>vertices_latest_time := vertices_latest_time (store w')\<rparr> \<and>
         length (vertices_latest_time (store w')) = length (vertices_latest_time (store w)) \<and>
         (\<forall>r. vertices_latest_time (store w) ! r = stamp \<longrightarrow>
              vertices_latest_time (store w') ! r = stamp) \<and>
         (\<forall>r. checkIfVertexUnique h (active_vertices_xyz (store w)) (fst p) = Seen r \<longrightarrow>
              r < length (vertices_latest_time (store w)) \<and>
              vertices_latest_time (store w') ! r = stamp)"
  using assms
  by (auto simp: classify_vertex_def nth_list_update split: query.splits if_splits)

lemma classify_vertices_times:
  assumes "classify_vertices h stamp N i ps w = Inr w'"
  shows "store w' = (store w)\<lparr>vertices_latest_time := vertices_latest_time (store w')\<rparr> \<and>
         length (vertices_latest_time (store w')) = length (vertices_latest_time (store w)) \<and>
         (\<forall>r. vertices_latest_time (store w) ! r = stamp \<longrightarrow>
              vertices_latest_time (store w') ! r = stamp) \<and>
         (\<forall>k<length ps. \<forall>r.
            checkIfVertexUnique h (active_vertices_xyz (store w)) (fst (ps ! k)) = Seen r \<longrightarrow>
              r < length (vertices_latest_time (store w)) \<and>
              vertices_latest_time (store w') ! r = stamp)"
  using assms
proof (induction ps arbitrary: i w)
  case Nil
  then show ?case by simp
next
  case (Cons p ps)
  from Cons.prems obtain w1 where
    1: "classify_vertex h stamp N i p w = Inr w1"
    and 2: "classify_vertices h stamp N (Suc i) ps w1 = Inr w'"
    by (auto split: sum.splits)
  note s1 = classify_vertex_times[OF 1]
  note ih = Cons.IH[OF 2]
  from s1 have x1: "active_vertices_xyz (store w1) = active_vertices_xyz (store w)"
    by (metis (no_types, lifting) mesh_store.select_convs(2) mesh_store.surjective
        mesh_store.update_convs(4))
  have a: "store w' = (store w)\<lparr>vertices_latest_time := vertices_latest_time (store w')\<rparr>"
  proof -
    from ih have "store w' = (store w1)\<lparr>vertices_latest_time := vertices_latest_time (store w')\<rparr>"
      by simp
    also from s1 have "store w1 = (store w)\<lparr>vertices_latest_time := vertices_latest_time (store w1)\<rparr>"
      by simp
    finally show ?thesis by simp
  qed
  have b: "length (vertices_latest_time (store w')) = length (vertices_latest_time (store w))"
    using s1 ih by simp
  have c: "\<forall>r. vertices_latest_time (store w) ! r = stamp \<longrightarrow>
              vertices_latest_time (store w') ! r = stamp"
    using s1 ih by simp
  have d: "\<forall>k<length (p # ps). \<forall>r.
            checkIfVertexUnique h (active_vertices_xyz (store w)) (fst ((p # ps) ! k)) = Seen r \<longrightarrow>
              r < length (vertices_latest_time (store w)) \<and>
              vertices_latest_time (store w') ! r = stamp"
  proof (intro allI impI)
    fix k r
    assume k: "k < length (p # ps)"
      and q: "checkIfVertexUnique h (active_vertices_xyz (store w)) (fst ((p # ps) ! k)) = Seen r"
    show "r < length (vertices_latest_time (store w)) \<and>
              vertices_latest_time (store w') ! r = stamp"
    proof (cases k)
      case 0
      with q s1 ih show ?thesis by simp
    next
      case (Suc k')
      with k q x1 s1 ih show ?thesis by simp
    qed
  qed
  from a b c d show ?case by blast
qed

lemma classified_upto_times:
  assumes "classified_upto h s V buffers stamp j = Inr w" and "j \<le> length V"
  shows "store w = s\<lparr>vertices_latest_time := vertices_latest_time (store w)\<rparr> \<and>
         length (vertices_latest_time (store w)) = length (vertices_latest_time s) \<and>
         (\<forall>i<j. \<forall>r. checkIfVertexUnique h (active_vertices_xyz s) (fst (V ! i)) = Seen r \<longrightarrow>
              r < length (vertices_latest_time s) \<and>
              vertices_latest_time (store w) ! r = stamp)"
  using classify_vertices_times[OF assms(1)[unfolded classified_upto_def]] assms(2)
  by (simp add: start_def)

lemma commit_vertex_fields:
  "case commit_vertex h stamp V i w of
     Inl (e, w') \<Rightarrow> True
   | Inr w' \<Rightarrow> potential_new_vertices w' = potential_new_vertices w \<and>
              potential_new_vertices_check w' = potential_new_vertices_check w"
  by (simp add: commit_vertex_def Let_def)

lemma commit_vertices_fields:
  assumes "commit_vertices h stamp V js w = Inr w'"
  shows "potential_new_vertices w' = potential_new_vertices w \<and>
         potential_new_vertices_check w' = potential_new_vertices_check w"
  using assms
proof (induction js arbitrary: w)
  case Nil
  then show ?case by simp
next
  case (Cons i js)
  from Cons.prems obtain w1 where
    1: "commit_vertex h stamp V i w = Inr w1"
    and 2: "commit_vertices h stamp V js w1 = Inr w'"
    by (auto split: sum.splits)
  from commit_vertex_fields[where h = h and stamp = stamp and V = V and i = i and w = w] 1 Cons.IH[OF 2]
  show ?case by simp
qed

lemma insert_failure_surfaced:
  assumes "3 \<le> length V" and "S \<noteq> []"
    and "committed_upto h s V S buffers stamp k = Inr w"
    and "k < length (potential_new_vertices w)"
    and "potential_new_vertices_check w ! k"
    and "\<not> updateStructure h
           (active_vertices_xyz (store w) @ [fst (V ! (potential_new_vertices w ! k))])"
  shows "compressAndIntegrate h s V S buffers stamp =
     (Some SpatialIndexFailure,
      (store w)\<lparr>active_vertices_xyz :=
         active_vertices_xyz (store w) @ [fst (V ! (potential_new_vertices w ! k))]\<rparr>,
      out w)"
proof -
  let ?N = "length (all_vertices s)"
  from assms(3) obtain w1 chk where
    1: "classify_vertices h stamp ?N 0 V (start s buffers) = Inr w1"
    and 2: "check_surfaces ?N (temp_reindex w1) S (potential_new_vertices_check w1) = Inr chk"
    and 3: "commit_vertices h stamp V [0..<k]
              (w1\<lparr>potential_new_vertices_check := chk,
                  out := (out w1)\<lparr>remapping := reindex w1\<rparr>\<rparr>) = Inr w"
    by (auto simp: committed_upto_def classified_upto_def split: sum.splits)
  let ?w2 = "w1\<lparr>potential_new_vertices_check := chk, out := (out w1)\<lparr>remapping := reindex w1\<rparr>\<rparr>"
  from commit_vertices_fields[OF 3] have n: "potential_new_vertices w = potential_new_vertices w1"
    by simp
  with assms(4) have k: "k < length (potential_new_vertices w1)" by simp
  then have "[0..<length (potential_new_vertices w1)] = [0..<k] @ k # [Suc k..<length (potential_new_vertices w1)]"
    by (metis le_add1 less_imp_le_nat upt_add_eq_append upt_conv_Cons le_add_diff_inverse plus_nat.add_0)
  moreover have "commit_vertex h stamp V k w =
      Inl (SpatialIndexFailure,
           w\<lparr>store := (store w)\<lparr>active_vertices_xyz :=
               active_vertices_xyz (store w) @ [fst (V ! (potential_new_vertices w ! k))]\<rparr>\<rparr>)"
    using assms(5,6) by (simp add: commit_vertex_def Let_def)
  ultimately have "commit_vertices h stamp V [0..<length (potential_new_vertices w1)] ?w2 =
      Inl (SpatialIndexFailure,
           w\<lparr>store := (store w)\<lparr>active_vertices_xyz :=
               active_vertices_xyz (store w) @ [fst (V ! (potential_new_vertices w ! k))]\<rparr>\<rparr>)"
    using 3 by (simp add: commit_vertices_append)
  with 1 2 assms(1,2) show ?thesis
    by (simp add: compressAndIntegrate_def start_def Let_def)
qed

text \<open>
  A flat call that returns has had no query of the spatial index and no
  \<^verbatim>\<open>updateStructure\<close> throw: every position list it has handed to \<^verbatim>\<open>updateStructure\<close> is
  a prefix of the active positions it leaves.
\<close>

lemma classify_vertices_no_failed_query:
  assumes "classify_vertices h stamp N i ps w = Inr w'" and "k < length ps"
  shows "checkIfVertexUnique h (active_vertices_xyz (store w)) (fst (ps ! k)) \<noteq> QueryFailed"
  using assms
proof (induction ps arbitrary: i w k)
  case Nil
  then show ?case by simp
next
  case (Cons p ps)
  from Cons.prems obtain w1 where
    1: "classify_vertex h stamp N i p w = Inr w1"
    and 2: "classify_vertices h stamp N (Suc i) ps w1 = Inr w'"
    by (auto split: sum.splits)
  from classify_vertex_reindex[OF 1]
  have x: "active_vertices_xyz (store w1) = active_vertices_xyz (store w)" by simp
  show ?case
  proof (cases k)
    case 0
    with 1 show ?thesis by (auto simp: classify_vertex_def split: query.splits)
  next
    case (Suc k')
    with Cons.prems Cons.IH[OF 2, of k'] x show ?thesis by simp
  qed
qed

lemma query_failure_not_swallowed:
  assumes "3 \<le> length V" and "S \<noteq> []" and "j < length V"
    and "checkIfVertexUnique h (active_vertices_xyz s) (fst (V ! j)) = QueryFailed"
  shows "fst (compressAndIntegrate h s V S buffers stamp) \<noteq> None"
proof
  assume "fst (compressAndIntegrate h s V S buffers stamp) = None"
  then have "compressAndIntegrate h s V S buffers stamp =
      (None, fst (snd (compressAndIntegrate h s V S buffers stamp)),
             snd (snd (compressAndIntegrate h s V S buffers stamp)))"
    by (simp add: prod_eq_iff)
  from compressAndIntegrate_returns[OF this assms(1,2)] obtain w1 where
    "classify_vertices h stamp (length (all_vertices s)) 0 V
        \<lparr>store = s, out = buffers, reindex = Map.empty, temp_reindex = [],
         potential_new_vertices = [], potential_new_vertices_check = [],
         temp_new_vertices = []\<rparr> = Inr w1" by blast
  from classify_vertices_no_failed_query[OF this assms(3)] assms(4) show False by simp
qed

lemma commit_vertices_accepted:
  assumes "commit_vertices h stamp V js w = Inr w'"
    and "\<forall>k. n < k \<and> k \<le> length (active_vertices_xyz (store w)) \<longrightarrow>
           updateStructure h (take k (active_vertices_xyz (store w)))"
  shows "\<forall>k. n < k \<and> k \<le> length (active_vertices_xyz (store w')) \<longrightarrow>
           updateStructure h (take k (active_vertices_xyz (store w')))"
  using assms
proof (induction js arbitrary: w)
  case Nil
  then show ?case by simp
next
  case (Cons i js)
  from Cons.prems(1) obtain w1 where
    1: "commit_vertex h stamp V i w = Inr w1"
    and 2: "commit_vertices h stamp V js w1 = Inr w'"
    by (auto split: sum.splits)
  have "\<forall>k. n < k \<and> k \<le> length (active_vertices_xyz (store w1)) \<longrightarrow>
           updateStructure h (take k (active_vertices_xyz (store w1)))"
  proof (cases "potential_new_vertices_check w ! i")
    case False
    with 1 Cons.prems(2) show ?thesis by (simp add: commit_vertex_def)
  next
    case True
    let ?p = "fst (V ! (potential_new_vertices w ! i))"
    from 1 True have u: "updateStructure h (active_vertices_xyz (store w) @ [?p])"
      and x: "active_vertices_xyz (store w1) = active_vertices_xyz (store w) @ [?p]"
      by (auto simp: commit_vertex_def Let_def split: if_splits)
    show ?thesis
    proof (intro allI impI)
      fix k
      assume k: "n < k \<and> k \<le> length (active_vertices_xyz (store w1))"
      show "updateStructure h (take k (active_vertices_xyz (store w1)))"
      proof (cases "k \<le> length (active_vertices_xyz (store w))")
        case True
        with k Cons.prems(2) show ?thesis by (simp add: x)
      next
        case False
        with k x have "k = Suc (length (active_vertices_xyz (store w)))" by simp
        with u show ?thesis by (simp add: x)
      qed
    qed
  qed
  from Cons.IH[OF 2 this] show ?case .
qed

lemma add_surfaces_xyz:
  "active_vertices_xyz (store (add_surfaces N S w)) = active_vertices_xyz (store w)"
proof -
  have "active_vertices_xyz (store (add_surfaces N S w)) = active_vertices_xyz (store w)"
    by (rule add_surfaces_rule[where P = "\<lambda>w'. active_vertices_xyz (store w') = active_vertices_xyz (store w)"])
       (simp_all add: add_surface_def Let_def)
  then show ?thesis .
qed

lemma insert_failure_not_swallowed:
  assumes "compressAndIntegrate h s V S buffers stamp = (None, s', b')"
    and "length (active_vertices_xyz s) < k" and "k \<le> length (active_vertices_xyz s')"
  shows "updateStructure h (take k (active_vertices_xyz s'))"
proof (cases "length V < 3 \<or> length S = 0")
  case True
  with assms show ?thesis by (simp add: compressAndIntegrate_def)
next
  case False
  then have "3 \<le> length V" "S \<noteq> []" by auto
  from compressAndIntegrate_returns[OF assms(1) this] obtain w1 chk w3 where
    1: "classify_vertices h stamp (length (all_vertices s)) 0 V
        \<lparr>store = s, out = buffers, reindex = Map.empty, temp_reindex = [],
         potential_new_vertices = [], potential_new_vertices_check = [],
         temp_new_vertices = []\<rparr> = Inr w1"
    and 3: "commit_vertices h stamp V [0..<length (potential_new_vertices w1)]
        (w1\<lparr>potential_new_vertices_check := chk, out := (out w1)\<lparr>remapping := reindex w1\<rparr>\<rparr>) = Inr w3"
    and 4: "s' = store (add_surfaces (length (all_vertices s)) S w3)"
    by blast
  from classify_vertices_reindex[OF 1]
  have x: "active_vertices_xyz (store w1) = active_vertices_xyz s" by simp
  have "\<forall>k. length (active_vertices_xyz s) < k \<and>
          k \<le> length (active_vertices_xyz (store (w1\<lparr>potential_new_vertices_check := chk,
                  out := (out w1)\<lparr>remapping := reindex w1\<rparr>\<rparr>))) \<longrightarrow>
           updateStructure h (take k (active_vertices_xyz (store (w1\<lparr>potential_new_vertices_check := chk,
                  out := (out w1)\<lparr>remapping := reindex w1\<rparr>\<rparr>))))"
    by (auto simp: x)
  from commit_vertices_accepted[OF 3 this] assms(2,3) show ?thesis
    by (simp add: 4 add_surfaces_xyz)
qed

text \<open>
  The octree compressor. Its first pass works on copies and catches what the temporary
  octree throws; an exception reaches the caller from the second pass only.
\<close>

lemmas octree_eval =
  compressAndIntegrate_octree_def first_pass_vertex_def insert_caught_def is_in_box_def
  check_polygon_def map_at_def degenerate_def SurfaceExists_def second_pass_index_def
  add_triangle_def push_adjacent_def map_subscript_def grid_octree_def cell3_def
  empty_octree_store_def empty_octree_buffers_def Let_def

lemma first_pass_all_caught:
  assumes "\<forall>t. getBoundingBox pcl t = None"
  shows "first_pass_vertices pcl n i ps f =
     Inr (f\<lparr>ros_error := ros_error f @
              replicate (length ps) ''OctreeCompression: Failed to insert mesh vertex. ''\<rparr>)"
  using assms
proof (induction ps arbitrary: i f)
  case Nil
  then show ?case by simp
next
  case (Cons p ps)
  from Cons.prems have "first_pass_vertex pcl n i p f = Inr (insert_caught f)"
    by (simp add: first_pass_vertex_def)
  with Cons.IH[OF Cons.prems, of "Suc i" "insert_caught f"] show ?case
    by (simp add: insert_caught_def replicate_app_Cons_same)
qed

lemma octree_failure_swallowed:
  assumes "\<forall>t. getBoundingBox pcl t = None"
  shows "compressAndIntegrate_octree pcl s V S buffers stamp =
     (if length V < 3 \<or> length S = 0 then []
      else replicate (length V) ''OctreeCompression: Failed to insert mesh vertex. '',
      None, s, buffers)"
  by (simp add: compressAndIntegrate_octree_def first_pass_all_caught[OF assms] Let_def)

lemma first_pass_no_exception:
  "first_pass_vertices pcl n i ps f = Inl (e, f') \<Longrightarrow> e = UndefinedBehaviour"
proof (induction ps arbitrary: i f)
  case Nil
  then show ?case by simp
next
  case (Cons p ps)
  show ?case
  proof (cases "first_pass_vertex pcl n i p f")
    case (Inl e')
    then have "e' = UndefinedBehaviour"
      by (auto simp: first_pass_vertex_def Let_def split: option.splits if_splits prod.splits bool.splits)
    with Inl Cons.prems show ?thesis by simp
  next
    case (Inr f1)
    with Cons.prems Cons.IH show ?thesis by simp
  qed
qed

lemma second_pass_index_lengths:
  assumes "length (active_vertices (store_oc c)) + a = length (all_vertices_oc (store_oc c)) + b"
  shows "case second_pass_index pcl stamp N temp_all has_adjacent idx c of
           Inl (e, c') \<Rightarrow>
             e = SpatialIndexFailure \<longrightarrow>
               length (active_vertices (store_oc c')) + a =
                 Suc (length (all_vertices_oc (store_oc c')) + b)
         | Inr c' \<Rightarrow>
             length (active_vertices (store_oc c')) + a = length (all_vertices_oc (store_oc c')) + b"
  using assms
  by (auto simp: second_pass_index_def Let_def split: option.splits bool.splits prod.splits)

lemma second_pass_indices_lengths:
  assumes "length (active_vertices (store_oc c)) + a = length (all_vertices_oc (store_oc c)) + b"
  shows "case second_pass_indices pcl stamp N temp_all has_adjacent js c of
           Inl (e, c') \<Rightarrow>
             e = SpatialIndexFailure \<longrightarrow>
               length (active_vertices (store_oc c')) + a =
                 Suc (length (all_vertices_oc (store_oc c')) + b)
         | Inr c' \<Rightarrow>
             length (active_vertices (store_oc c')) + a = length (all_vertices_oc (store_oc c')) + b"
  using assms
proof (induction js arbitrary: c)
  case Nil
  then show ?case by simp
next
  case (Cons idx js)
  note step = second_pass_index_lengths[OF Cons.prems, of pcl stamp N temp_all has_adjacent idx]
  show ?case
  proof (cases "second_pass_index pcl stamp N temp_all has_adjacent idx c")
    case (Inl ec)
    with step show ?thesis by (simp split: prod.splits)
  next
    case (Inr c1)
    with step have "length (active_vertices (store_oc c1)) + a =
        length (all_vertices_oc (store_oc c1)) + b" by simp
    from Cons.IH[OF this] Inr show ?thesis by simp
  qed
qed

lemma octree_insert_failure_surfaced:
  assumes "compressAndIntegrate_octree pcl s V S buffers stamp = (l, Some SpatialIndexFailure, s', b')"
  shows "length (active_vertices s') + length (all_vertices_oc s) =
           Suc (length (all_vertices_oc s') + length (active_vertices s))"
proof -
  let ?f0 = "\<lparr>temp_active_vertices_oc = active_vertices s,
                temp_all_vertices = all_vertices_oc s,
                temp_octree = octree s,
                temp_active_vertices_index = active_vertices_index_oc s,
                temp_new_indices = [],
                temp_have_adjacent_polygons = Map.empty,
                remapping_oc = Map.empty,
                ros_error = []\<rparr>"
  from assms have run: "\<not> (length V < 3 \<or> length S = 0)"
    by (auto simp: compressAndIntegrate_octree_def)
  show ?thesis
  proof (cases "first_pass_vertices pcl (length (active_vertices s)) 0 V ?f0")
    case (Inl ef)
    obtain e f where ef: "ef = (e, f)" by (cases ef)
    from first_pass_no_exception[OF Inl[unfolded ef]] have "e = UndefinedBehaviour" .
    with assms run Inl ef show ?thesis
      by (simp add: compressAndIntegrate_octree_def Let_def)
  next
    case (Inr f)
    let ?checked = "foldl (check_polygon (length (all_vertices_oc s)) s (remapping_oc f))
                      ([], temp_have_adjacent_polygons f) S"
    let ?c0 = "\<lparr>store_oc = s, out_oc = buffers, second_remapping = Map.empty\<rparr>"
    have "length (active_vertices (store_oc ?c0)) + length (all_vertices_oc s) =
          length (all_vertices_oc (store_oc ?c0)) + length (active_vertices s)" by simp
    note inv = second_pass_indices_lengths[OF this, of pcl stamp "length (all_vertices_oc s)"
        "temp_all_vertices f" "snd ?checked" "temp_new_indices f"]
    show ?thesis
    proof (cases "second_pass_indices pcl stamp (length (all_vertices_oc s))
        (temp_all_vertices f) (snd ?checked) (temp_new_indices f) ?c0")
      case (Inl ec)
      obtain e c where ec: "ec = (e, c)" by (cases ec)
      from assms run Inr Inl ec have "e = SpatialIndexFailure \<and> s' = store_oc c"
        by (simp add: compressAndIntegrate_octree_def Let_def split: if_splits)
      with inv Inl ec show ?thesis by simp
    next
      case c: (Inr c)
      with assms run Inr show ?thesis
        by (simp add: compressAndIntegrate_octree_def Let_def split: if_splits)
    qed
  qed
qed

lemma second_pass_index_no_failure:
  assumes "\<forall>t cloud i. fst (addPointFromCloud pcl t cloud i)"
  shows "second_pass_index pcl stamp N temp_all has_adjacent idx c \<noteq> Inl (SpatialIndexFailure, c')"
proof -
  have "\<And>t cloud i u. addPointFromCloud pcl t cloud i \<noteq> (False, u)"
    using assms by (metis fst_conv)
  then show ?thesis
    by (auto simp: second_pass_index_def Let_def split: option.splits bool.splits prod.splits)
qed

lemma second_pass_indices_no_failure:
  assumes "\<forall>t cloud i. fst (addPointFromCloud pcl t cloud i)"
  shows "second_pass_indices pcl stamp N temp_all has_adjacent js c \<noteq> Inl (SpatialIndexFailure, c')"
proof (induction js arbitrary: c)
  case Nil
  show ?case by simp
next
  case (Cons idx js)
  show ?case
  proof (cases "second_pass_index pcl stamp N temp_all has_adjacent idx c")
    case (Inl ec)
    with second_pass_index_no_failure[OF assms, of stamp N temp_all has_adjacent idx c c']
    show ?thesis by auto
  next
    case (Inr c1)
    with Cons.IH[of c1] show ?thesis by simp
  qed
qed

lemma octree_query_failure_swallowed:
  assumes "\<forall>t cloud i. fst (addPointFromCloud pcl t cloud i)"
  shows "fst (snd (compressAndIntegrate_octree pcl s V S buffers stamp)) \<noteq> Some SpatialIndexFailure"
proof
  assume a: "fst (snd (compressAndIntegrate_octree pcl s V S buffers stamp)) = Some SpatialIndexFailure"
  let ?f0 = "\<lparr>temp_active_vertices_oc = active_vertices s,
                temp_all_vertices = all_vertices_oc s,
                temp_octree = octree s,
                temp_active_vertices_index = active_vertices_index_oc s,
                temp_new_indices = [],
                temp_have_adjacent_polygons = Map.empty,
                remapping_oc = Map.empty,
                ros_error = []\<rparr>"
  from a have run: "\<not> (length V < 3 \<or> length S = 0)"
    by (auto simp: compressAndIntegrate_octree_def)
  show False
  proof (cases "first_pass_vertices pcl (length (active_vertices s)) 0 V ?f0")
    case (Inl ef)
    obtain e f where ef: "ef = (e, f)" by (cases ef)
    from first_pass_no_exception[OF Inl[unfolded ef]] have "e = UndefinedBehaviour" .
    with a run Inl ef show ?thesis
      by (simp add: compressAndIntegrate_octree_def Let_def)
  next
    case (Inr f)
    let ?checked = "foldl (check_polygon (length (all_vertices_oc s)) s (remapping_oc f))
                      ([], temp_have_adjacent_polygons f) S"
    let ?c0 = "\<lparr>store_oc = s, out_oc = buffers, second_remapping = Map.empty\<rparr>"
    show ?thesis
    proof (cases "second_pass_indices pcl stamp (length (all_vertices_oc s))
        (temp_all_vertices f) (snd ?checked) (temp_new_indices f) ?c0")
      case (Inl ec)
      obtain e c where ec: "ec = (e, c)" by (cases ec)
      from a run Inr Inl ec have "e = SpatialIndexFailure"
        by (simp add: compressAndIntegrate_octree_def Let_def split: if_splits)
      with second_pass_indices_no_failure[OF assms, of stamp "length (all_vertices_oc s)"
        "temp_all_vertices f" "snd ?checked" "temp_new_indices f" ?c0 c] Inl ec
      show ?thesis by simp
    next
      case c: (Inr c)
      with a run Inr show ?thesis
        by (simp add: compressAndIntegrate_octree_def Let_def split: if_splits)
    qed
  qed
qed

text \<open>
  Claim C6, as the code has it. Neither compressor takes a snapshot or rolls back.

  \<^verbatim>\<open>MeshCompression::compressAndIntegrate\<close>, flat variant, run through its passes (at
  least three vertices and one face). A call in which the query of the spatial index
  throws for an input vertex does not return normally. When the input vertices before
  \<open>j\<close> have been classified and a hook call of the classification of vertex \<open>j\<close>
  throws, the caller gets \<open>SpatialIndexFailure\<close> and the store as those vertices have
  left it; it differs from the store on entry in last-seen times only, and the slot of
  every re-observation among those vertices holds the stamp. A call returns normally
  only if \<^verbatim>\<open>updateStructure\<close> has accepted every position list it was handed (the
  prefixes of the active positions that are longer than on entry). When the provisional
  vertices before the \<open>k\<close>-th have been committed and \<^verbatim>\<open>updateStructure\<close> throws for
  the \<open>k\<close>-th, the caller gets \<open>SpatialIndexFailure\<close> and the store with those commits
  and with the position of the \<open>k\<close>-th at the end of the active positions. Whatever
  exception leaves the flat or the block variant, \<^verbatim>\<open>polygons_\<close> and \<^verbatim>\<open>adjacent_polygons_\<close>
  are as on entry, \<^verbatim>\<open>all_vertices_\<close>, the active positions and the active-to-all array
  keep their entries and may have grown at the end, and an old slot of the time array
  holds its old time or the stamp.

  \<^verbatim>\<open>OctreeCompression::compressAndIntegrate\<close>: when every bounding-box query throws, the
  call returns without an exception, with one line in the log for each input vertex and
  with the store and the buffers as on entry. When no insert into an octree throws, no
  exception of the octree reaches the caller, whatever its queries throw. When an
  exception of the octree does reach the caller, the store holds one more active point
  than on entry for each vertex added, and one more for the point whose insert has
  thrown.
\<close>

theorem failure_is_not_rolled_back:
  fixes h :: "'p hooks" and s :: "('p, 'c) mesh_store" and pcl :: "('d, 'o) pcl_octree"
  shows
  "(3 \<le> length V \<longrightarrow> S \<noteq> [] \<longrightarrow> j < length V \<longrightarrow>
      checkIfVertexUnique h (active_vertices_xyz s) (fst (V ! j)) = QueryFailed \<longrightarrow>
        fst (compressAndIntegrate h s V S buffers stamp) \<noteq> None) \<and>
   (3 \<le> length V \<longrightarrow> S \<noteq> [] \<longrightarrow> j < length V \<longrightarrow>
      classified_upto h s V buffers stamp j = Inr w \<longrightarrow> query_fails h w (fst (V ! j)) \<longrightarrow>
        compressAndIntegrate h s V S buffers stamp = (Some SpatialIndexFailure, store w, out w) \<and>
        store w = s\<lparr>vertices_latest_time := vertices_latest_time (store w)\<rparr> \<and>
        (\<forall>i<j. \<forall>r. checkIfVertexUnique h (active_vertices_xyz s) (fst (V ! i)) = Seen r \<longrightarrow>
           r < length (vertices_latest_time s) \<and> vertices_latest_time (store w) ! r = stamp)) \<and>
   (compressAndIntegrate h s V S buffers stamp = (None, s1, b1) \<longrightarrow>
      length (active_vertices_xyz s) < n \<longrightarrow> n \<le> length (active_vertices_xyz s1) \<longrightarrow>
        updateStructure h (take n (active_vertices_xyz s1))) \<and>
   (3 \<le> length V \<longrightarrow> S \<noteq> [] \<longrightarrow> committed_upto h s V S buffers stamp k = Inr w' \<longrightarrow>
      k < length (potential_new_vertices w') \<longrightarrow> potential_new_vertices_check w' ! k \<longrightarrow>
      \<not> updateStructure h
          (active_vertices_xyz (store w') @ [fst (V ! (potential_new_vertices w' ! k))]) \<longrightarrow>
        compressAndIntegrate h s V S buffers stamp =
          (Some SpatialIndexFailure,
           (store w')\<lparr>active_vertices_xyz :=
              active_vertices_xyz (store w') @ [fst (V ! (potential_new_vertices w' ! k))]\<rparr>,
           out w')) \<and>
   (compressAndIntegrate h s V S buffers stamp = (Some e, s', b') \<longrightarrow> grown_from stamp s s') \<and>
   (compressAndIntegrate_blocks h s mbs block_buffers stamp = (Some e2, s2, b2) \<longrightarrow>
      grown_from stamp s s2) \<and>
   ((\<forall>t. getBoundingBox pcl t = None) \<longrightarrow>
      compressAndIntegrate_octree pcl os OV OS obuffers ostamp =
        (if length OV < 3 \<or> length OS = 0 then []
         else replicate (length OV) ''OctreeCompression: Failed to insert mesh vertex. '',
         None, os, obuffers)) \<and>
   ((\<forall>t cloud i. fst (addPointFromCloud pcl t cloud i)) \<longrightarrow>
      fst (snd (compressAndIntegrate_octree pcl os OV OS obuffers ostamp)) \<noteq>
        Some SpatialIndexFailure) \<and>
   (compressAndIntegrate_octree pcl os OV OS obuffers ostamp =
        (l, Some SpatialIndexFailure, os', ob') \<longrightarrow>
      length (active_vertices os') + length (all_vertices_oc os) =
        Suc (length (all_vertices_oc os') + length (active_vertices os)))"
proof (intro conjI impI)
  assume "3 \<le> length V" "S \<noteq> []" "j < length V"
    "checkIfVertexUnique h (active_vertices_xyz s) (fst (V ! j)) = QueryFailed"
  then show "fst (compressAndIntegrate h s V S buffers stamp) \<noteq> None"
    by (rule query_failure_not_swallowed)
next
  assume a: "3 \<le> length V" "S \<noteq> []" "j < length V"
    "classified_upto h s V buffers stamp j = Inr w" "query_fails h w (fst (V ! j))"
  from query_failure_surfaced[OF a]
  show "compressAndIntegrate h s V S buffers stamp = (Some SpatialIndexFailure, store w, out w)" .
  from a(3) have "j \<le> length V" by simp
  note t = classified_upto_times[OF a(4) this]
  from t show "store w = s\<lparr>vertices_latest_time := vertices_latest_time (store w)\<rparr>" by simp
  from t show "\<forall>i<j. \<forall>r. checkIfVertexUnique h (active_vertices_xyz s) (fst (V ! i)) = Seen r \<longrightarrow>
           r < length (vertices_latest_time s) \<and> vertices_latest_time (store w) ! r = stamp"
    by simp
next
  assume "compressAndIntegrate h s V S buffers stamp = (None, s1, b1)"
    "length (active_vertices_xyz s) < n" "n \<le> length (active_vertices_xyz s1)"
  then show "updateStructure h (take n (active_vertices_xyz s1))"
    by (rule insert_failure_not_swallowed)
next
  assume "3 \<le> length V" "S \<noteq> []" "committed_upto h s V S buffers stamp k = Inr w'"
    "k < length (potential_new_vertices w')" "potential_new_vertices_check w' ! k"
    "\<not> updateStructure h
          (active_vertices_xyz (store w') @ [fst (V ! (potential_new_vertices w' ! k))])"
  then show "compressAndIntegrate h s V S buffers stamp =
          (Some SpatialIndexFailure,
           (store w')\<lparr>active_vertices_xyz :=
              active_vertices_xyz (store w') @ [fst (V ! (potential_new_vertices w' ! k))]\<rparr>,
           out w')"
    by (rule insert_failure_surfaced)
next
  assume "compressAndIntegrate h s V S buffers stamp = (Some e, s', b')"
  then show "grown_from stamp s s'" by (rule compressAndIntegrate_grown)
next
  assume "compressAndIntegrate_blocks h s mbs block_buffers stamp = (Some e2, s2, b2)"
  then show "grown_from stamp s s2" by (rule compressAndIntegrate_blocks_grown)
next
  assume "\<forall>t. getBoundingBox pcl t = None"
  then show "compressAndIntegrate_octree pcl os OV OS obuffers ostamp =
        (if length OV < 3 \<or> length OS = 0 then []
         else replicate (length OV) ''OctreeCompression: Failed to insert mesh vertex. '',
         None, os, obuffers)"
    by (rule octree_failure_swallowed)
next
  assume "\<forall>t cloud i. fst (addPointFromCloud pcl t cloud i)"
  then show "fst (snd (compressAndIntegrate_octree pcl os OV OS obuffers ostamp)) \<noteq>
        Some SpatialIndexFailure"
    by (rule octree_query_failure_swallowed)
next
  assume "compressAndIntegrate_octree pcl os OV OS obuffers ostamp =
        (l, Some SpatialIndexFailure, os', ob')"
  then show "length (active_vertices os') + length (all_vertices_oc os) =
        Suc (length (all_vertices_oc os') + length (active_vertices os))"
    by (rule octree_insert_failure_surfaced)
qed

theorem failure_is_not_rolled_back_witness:
  "compressAndIntegrate failing_query_hooks orphan_store failing_batch [[0, 1, 2]] empty_buffers 2 =
     (Some SpatialIndexFailure, orphan_store\<lparr>vertices_latest_time := [2, 1, 1]\<rparr>,
      empty_buffers\<lparr>new_indices := [0]\<rparr>) \<and>
   compressAndIntegrate failing_cell_hooks empty_store insert_failure_batch [[0, 1, 2]]
       empty_buffers 1 =
     (Some SpatialIndexFailure, misaligned_store,
      \<lparr>new_vertices = [((0, 0, 0), ())], new_triangles = [], new_indices = [0],
       remapping = [0 \<mapsto> 0]\<rparr>) \<and>
   grown_from 1 empty_store misaligned_store \<and>
   compressAndIntegrate_octree broken_octree empty_octree_store skipping_batch [[0, 2, 3]]
       empty_octree_buffers 1 =
     (replicate 4 ''OctreeCompression: Failed to insert mesh vertex. '', None,
      empty_octree_store, empty_octree_buffers) \<and>
   fst (snd (compressAndIntegrate_octree failing_cell_octree empty_octree_store
       skipping_batch [[0, 2, 3]] empty_octree_buffers 1)) \<noteq> Some SpatialIndexFailure"
proof -
  define w1 :: "(real \<times> real \<times> real, unit, nat \<rightharpoonup> nat) work" where
    "w1 = \<lparr>store = orphan_store\<lparr>vertices_latest_time := [2, 1, 1]\<rparr>,
           out = empty_buffers\<lparr>new_indices := [0]\<rparr>,
           reindex = [0 \<mapsto> 0], temp_reindex = [0],
           potential_new_vertices = [], potential_new_vertices_check = [],
           temp_new_vertices = []\<rparr>"
  have c1: "classified_upto failing_query_hooks orphan_store failing_batch empty_buffers 2 1 = Inr w1"
    by (simp add: classified_upto_def start_def w1_def flat_eval failing_query_hooks_def
          failing_batch_def orphan_store_def)
  have q1: "query_fails failing_query_hooks w1 (fst (failing_batch ! 1))"
    by (simp add: query_fails_def w1_def failing_query_hooks_def failing_batch_def cell3_def)
  have l1: "3 \<le> length failing_batch" "1 < length failing_batch"
    by (simp_all add: failing_batch_def)
  from failure_is_not_rolled_back[where h = failing_query_hooks and s = orphan_store
      and V = failing_batch and S = "[[0, 1, 2]]" and buffers = empty_buffers and stamp = 2
      and j = 1 and w = w1, THEN conjunct2, THEN conjunct1] c1 q1 l1
  have a: "compressAndIntegrate failing_query_hooks orphan_store failing_batch [[0, 1, 2]]
      empty_buffers 2 =
     (Some SpatialIndexFailure, orphan_store\<lparr>vertices_latest_time := [2, 1, 1]\<rparr>,
      empty_buffers\<lparr>new_indices := [0]\<rparr>)"
    by (simp add: w1_def)
  define w2 :: "(real \<times> real \<times> real, unit, nat \<rightharpoonup> nat) work" where
    "w2 = \<lparr>store = \<lparr>all_vertices = [((0, 0, 0), ())], active_vertices_xyz = [(0, 0, 0)],
                    active_vertices_index = [0], vertices_latest_time = [1], polygons = [],
                    adjacent_polygons = Map.empty\<rparr>,
           out = \<lparr>new_vertices = [((0, 0, 0), ())], new_triangles = [], new_indices = [0],
                  remapping = [0 \<mapsto> 0]\<rparr>,
           reindex = [0 \<mapsto> 0], temp_reindex = [0, 1, 2],
           potential_new_vertices = [0, 1, 2], potential_new_vertices_check = [True, True, True],
           temp_new_vertices = [(0, 0, 0), (19 / 2, 19 / 2, 19 / 2), (0, 2, 0)]\<rparr>"
  have c2: "committed_upto failing_cell_hooks empty_store insert_failure_batch [[0, 1, 2]]
      empty_buffers 1 1 = Inr w2"
    by (simp add: committed_upto_def classified_upto_def start_def w2_def flat_eval
          failing_cell_hooks_def insert_failure_batch_def)
  have q2: "1 < length (potential_new_vertices w2)" "potential_new_vertices_check w2 ! 1"
    "\<not> updateStructure failing_cell_hooks
        (active_vertices_xyz (store w2) @
           [fst (insert_failure_batch ! (potential_new_vertices w2 ! 1))])"
    by (simp_all add: w2_def failing_cell_hooks_def insert_failure_batch_def grid_hooks_def cell3_def)
  have l2: "3 \<le> length insert_failure_batch" by (simp add: insert_failure_batch_def)
  from failure_is_not_rolled_back[where h = failing_cell_hooks and s = empty_store
      and V = insert_failure_batch and S = "[[0, 1, 2]]" and buffers = empty_buffers and stamp = 1
      and k = 1 and w' = w2, THEN conjunct2, THEN conjunct2, THEN conjunct2, THEN conjunct1]
    c2 q2 l2
  have b: "compressAndIntegrate failing_cell_hooks empty_store insert_failure_batch [[0, 1, 2]]
       empty_buffers 1 =
     (Some SpatialIndexFailure, misaligned_store,
      \<lparr>new_vertices = [((0, 0, 0), ())], new_triangles = [], new_indices = [0],
       remapping = [0 \<mapsto> 0]\<rparr>)"
    by (simp add: w2_def misaligned_store_def insert_failure_batch_def)
  from failure_is_not_rolled_back[where h = failing_cell_hooks and s = empty_store
      and V = insert_failure_batch and S = "[[0, 1, 2]]" and buffers = empty_buffers and stamp = 1
      and e = SpatialIndexFailure and s' = misaligned_store,
      THEN conjunct2, THEN conjunct2, THEN conjunct2, THEN conjunct2, THEN conjunct1] b
  have c: "grown_from 1 empty_store misaligned_store" by simp
  have g: "\<forall>t. getBoundingBox broken_octree t = None"
    by (simp add: broken_octree_def)
  from failure_is_not_rolled_back[where pcl = broken_octree and os = empty_octree_store
      and OV = skipping_batch and OS = "[[0, 2, 3]]" and obuffers = empty_octree_buffers
      and ostamp = 1,
      THEN conjunct2, THEN conjunct2, THEN conjunct2, THEN conjunct2, THEN conjunct2,
      THEN conjunct2, THEN conjunct1] g
  have d: "compressAndIntegrate_octree broken_octree empty_octree_store skipping_batch [[0, 2, 3]]
       empty_octree_buffers 1 =
     (replicate 4 ''OctreeCompression: Failed to insert mesh vertex. '', None,
      empty_octree_store, empty_octree_buffers)"
    by (simp add: skipping_batch_def eval_nat_numeral)
  have i: "\<forall>t cloud i. fst (addPointFromCloud failing_cell_octree t cloud i)"
    by (simp add: failing_cell_octree_def grid_octree_def)
  from failure_is_not_rolled_back[where pcl = failing_cell_octree and os = empty_octree_store
      and OV = skipping_batch and OS = "[[0, 2, 3]]" and obuffers = empty_octree_buffers
      and ostamp = 1,
      THEN conjunct2, THEN conjunct2, THEN conjunct2, THEN conjunct2, THEN conjunct2,
      THEN conjunct2, THEN conjunct2, THEN conjunct1] i
  have e: "fst (snd (compressAndIntegrate_octree failing_cell_octree empty_octree_store
       skipping_batch [[0, 2, 3]] empty_octree_buffers 1)) \<noteq> Some SpatialIndexFailure"
    by simp
  from a b c d e show ?thesis by blast
qed

text \<open>
  Claim C6 as stated fails. With \<open>failing_insert_hooks\<close> a new compressor is left with an
  active position and no vertex; with \<open>failing_query_hooks\<close> the failure at the second
  vertex of \<open>failing_batch\<close> comes after the first vertex has set the last-seen time of
  slot 0 to the stamp 2. Both times the error reaches the caller and the store is not
  as on entry. With \<open>failing_cell_octree\<close> the occupancy query of the second vertex of
  \<open>skipping_batch\<close> throws; the octree compressor writes one line to the log, reports
  no error and stores the other three vertices and their triangle.
\<close>

theorem failure_leaves_partial_effects:
  "fst (compressAndIntegrate failing_insert_hooks empty_store triangle_batch [[0, 1, 2]]
         empty_buffers 1) = Some SpatialIndexFailure \<and>
   active_vertices_xyz (empty_store :: (real \<times> real \<times> real, unit) mesh_store) = [] \<and>
   active_vertices_xyz (fst (snd (compressAndIntegrate failing_insert_hooks empty_store
         triangle_batch [[0, 1, 2]] empty_buffers 1))) = [(0, 0, 0)] \<and>
   fst (compressAndIntegrate failing_query_hooks orphan_store failing_batch [[0, 1, 2]]
         empty_buffers 2) = Some SpatialIndexFailure \<and>
   vertices_latest_time orphan_store = [1, 1, 1] \<and>
   vertices_latest_time (fst (snd (compressAndIntegrate failing_query_hooks orphan_store
         failing_batch [[0, 1, 2]] empty_buffers 2))) = [2, 1, 1] \<and>
   isVoxelOccupiedAtPoint failing_cell_octree [] (skipping_batch ! 1) = None \<and>
   fst (compressAndIntegrate_octree failing_cell_octree empty_octree_store skipping_batch
         [[0, 2, 3]] empty_octree_buffers 1) =
     [''OctreeCompression: Failed to insert mesh vertex. ''] \<and>
   fst (snd (compressAndIntegrate_octree failing_cell_octree empty_octree_store skipping_batch
         [[0, 2, 3]] empty_octree_buffers 1)) = None \<and>
   all_vertices_oc (empty_octree_store :: (unit, (real \<times> real \<times> real) list) octree_store) = [] \<and>
   all_vertices_oc (fst (snd (snd (compressAndIntegrate_octree failing_cell_octree
         empty_octree_store skipping_batch [[0, 2, 3]] empty_octree_buffers 1)))) =
     [((0, 0, 0), ()), ((2, 0, 0), ()), ((0, 2, 0), ())] \<and>
   polygons_oc (fst (snd (snd (compressAndIntegrate_octree failing_cell_octree
         empty_octree_store skipping_batch [[0, 2, 3]] empty_octree_buffers 1)))) = [[0, 1, 2]]"
proof -
  have flat: "fst (compressAndIntegrate failing_insert_hooks empty_store triangle_batch [[0, 1, 2]]
         empty_buffers 1) = Some SpatialIndexFailure \<and>
   active_vertices_xyz (empty_store :: (real \<times> real \<times> real, unit) mesh_store) = [] \<and>
   active_vertices_xyz (fst (snd (compressAndIntegrate failing_insert_hooks empty_store
         triangle_batch [[0, 1, 2]] empty_buffers 1))) = [(0, 0, 0)] \<and>
   fst (compressAndIntegrate failing_query_hooks orphan_store failing_batch [[0, 1, 2]]
         empty_buffers 2) = Some SpatialIndexFailure \<and>
   vertices_latest_time orphan_store = [1, 1, 1] \<and>
   vertices_latest_time (fst (snd (compressAndIntegrate failing_query_hooks orphan_store
         failing_batch [[0, 1, 2]] empty_buffers 2))) = [2, 1, 1]"
    by (simp add: flat_eval failing_insert_hooks_def failing_query_hooks_def triangle_batch_def
        failing_batch_def orphan_store_def)
  have q: "isVoxelOccupiedAtPoint failing_cell_octree [] (skipping_batch ! 1) = None"
    by (simp add: failing_cell_octree_def skipping_batch_def cell3_def)
  have r: "compressAndIntegrate_octree failing_cell_octree empty_octree_store skipping_batch
       [[0, 2, 3]] empty_octree_buffers 1 =
     ([''OctreeCompression: Failed to insert mesh vertex. ''], None,
      \<lparr>all_vertices_oc = [((0, 0, 0), ()), ((2, 0, 0), ()), ((0, 2, 0), ())],
       active_vertices = [((0, 0, 0), ()), ((2, 0, 0), ()), ((0, 2, 0), ())],
       octree = [(0, 0, 0), (2, 0, 0), (0, 2, 0)],
       active_vertices_index_oc = [0, 1, 2],
       vertices_latest_time_oc = [1, 1, 1],
       polygons_oc = [[0, 1, 2]],
       adjacent_polygons_oc = [0 \<mapsto> [0], 1 \<mapsto> [0], 2 \<mapsto> [0]]\<rparr>,
      \<lparr>new_vertices = [((0, 0, 0), ()), ((2, 0, 0), ()), ((0, 2, 0), ())],
       new_triangles = [[0, 1, 2]], new_indices = [0, 1, 2], remapping = ()\<rparr>)"
    by (simp add: octree_eval failing_cell_octree_def skipping_batch_def numeral_2_eq_2)
  have e: "all_vertices_oc (empty_octree_store :: (unit, (real \<times> real \<times> real) list) octree_store) = []"
    by (simp add: empty_octree_store_def)
  from flat q e show ?thesis unfolding r by simp
qed

section \<open>Duplicate surfaces\<close>

lemma SurfaceExists_complete:
  assumes ac: "adjacency_complete s"
    and act: "set r \<subseteq> set (active_vertices_index s)"
    and ne: "r \<noteq> []"
    and i: "i < length (polygons s)" and eq: "set (polygons s ! i) = set r"
  shows "SurfaceExists r (adjacent_polygons s) (polygons s)"
proof -
  from ne have v: "hd r \<in> set r" by simp
  with act have "hd r \<in> set (active_vertices_index s)" by auto
  moreover from v eq have "hd r \<in> set (polygons s ! i)" by simp
  ultimately have "i \<in> set (map_subscript (adjacent_polygons s) (hd r))"
    using ac i by (simp add: adjacency_complete_def)
  with i eq v show ?thesis
    unfolding SurfaceExists_def list_ex_iff by blast
qed

lemma duplicates_are_fresh_snoc:
  assumes "duplicates_are_fresh P0 N ps"
    and "\<And>i. i < length ps \<Longrightarrow> set (ps ! i) = set r \<Longrightarrow> P0 \<le> i \<and> (\<exists>v\<in>set r. N \<le> v)"
  shows "duplicates_are_fresh P0 N (ps @ [r])"
  unfolding duplicates_are_fresh_def
proof (intro allI impI)
  fix j i
  assume j: "j < length (ps @ [r])" and i: "i < j" and p: "P0 \<le> j"
    and e: "set ((ps @ [r]) ! i) = set ((ps @ [r]) ! j)"
  show "P0 \<le> i \<and> (\<exists>v\<in>set ((ps @ [r]) ! j). N \<le> v)"
  proof (cases "j < length ps")
    case True
    with i e have "set (ps ! i) = set (ps ! j)" by (simp add: nth_append)
    with assms(1) True i p have "P0 \<le> i \<and> (\<exists>v\<in>set (ps ! j). N \<le> v)"
      unfolding duplicates_are_fresh_def by blast
    with True show ?thesis by (simp add: nth_append)
  next
    case False
    with j have jj: "j = length ps" by simp
    with i e have "set (ps ! i) = set r" by (simp add: nth_append)
    from assms(2)[OF _ this] i jj show ?thesis by (simp add: nth_append)
  qed
qed

lemma add_surface_appending:
  assumes si: "store_inv s" and ap: "appending s w"
  shows "appending s (add_surface (length (all_vertices s)) t w)"
proof -
  let ?N = "length (all_vertices s)"
  let ?r = "reindex_found (reindex w) t"
  let ?ps = "polygons (store w)"
  from ap have wi: "work_inv w" and pre: "prefix (polygons s) ?ps"
    and df: "duplicates_are_fresh (length (polygons s)) ?N ?ps"
    by (simp_all add: appending_def)
  have act: "set ?r \<subseteq> set (active_vertices_index (store w))"
    using wi reindex_found_ran[of "reindex w" t] by (auto simp: work_inv_def)
  have ac: "adjacency_complete (store w)" using wi by (simp add: work_inv_def store_inv_def)
  show ?thesis
  proof (cases "add_surface ?N t w = w")
    case True
    with ap show ?thesis by simp
  next
    case False
    then have len: "3 \<le> length ?r"
      and new: "list_ex (\<lambda>v. ?N \<le> v) ?r \<or> \<not> SurfaceExists ?r (adjacent_polygons (store w)) ?ps"
      and eq: "add_surface ?N t w =
         w\<lparr>store := (store w)\<lparr>polygons := ?ps @ [?r],
                  adjacent_polygons := foldl (push_adjacent (length ?ps)) (adjacent_polygons (store w)) ?r\<rparr>,
           out := (out w)\<lparr>new_triangles := new_triangles (out w) @ [?r]\<rparr>\<rparr>"
      by (auto simp: add_surface_def Let_def split: if_splits)
    from len have ne: "?r \<noteq> []" by auto
    have fresh: "P0 \<le> i \<and> (\<exists>v\<in>set ?r. ?N \<le> v)"
      if i: "i < length ?ps" and e: "set (?ps ! i) = set ?r" and P0: "P0 = length (polygons s)" for i P0
    proof -
      from SurfaceExists_complete[OF ac act ne i e] new
      have ex: "\<exists>v\<in>set ?r. ?N \<le> v" by (auto simp: list_ex_iff)
      have "length (polygons s) \<le> i"
      proof (rule ccontr)
        assume "\<not> length (polygons s) \<le> i"
        then have lt: "i < length (polygons s)" by simp
        with pre have "?ps ! i = polygons s ! i"
          by (auto simp: prefix_def nth_append)
        moreover from si lt have "\<forall>v\<in>set (polygons s ! i). v < ?N"
          by (auto simp: store_inv_def list_all_iff)
        ultimately show False using ex e by auto
      qed
      with ex P0 show ?thesis by simp
    qed
    have df': "duplicates_are_fresh (length (polygons s)) ?N (?ps @ [?r])"
      using df fresh by (intro duplicates_are_fresh_snoc) auto
    have wi': "work_inv (add_surface ?N t w)" using wi by (rule add_surface_work_inv)
    from pre have pre': "prefix (polygons s) (?ps @ [?r])" by (rule prefix_snoc)
    from wi' pre' df' show ?thesis
      unfolding appending_def by (simp add: eq)
  qed
qed

lemma add_surfaces_appending:
  assumes "store_inv s" and "appending s w"
  shows "appending s (add_surfaces (length (all_vertices s)) S w)"
  using assms(2) by (rule add_surfaces_rule) (rule add_surface_appending[OF assms(1)])

lemma duplicates_are_fresh_old: "duplicates_are_fresh (length ps) N ps"
  by (simp add: duplicates_are_fresh_def)

lemma appending_start:
  assumes "work_inv w" and "grown_from stamp s (store w)"
  shows "appending s w"
  using assms by (simp add: appending_def grown_from_def duplicates_are_fresh_old)

lemma compressAndIntegrate_appends:
  fixes s :: "('p, 'c) mesh_store"
  assumes "store_inv s"
  shows "prefix (polygons s) (polygons (fst (snd (compressAndIntegrate h s V S buffers stamp)))) \<and>
         duplicates_are_fresh (length (polygons s)) (length (all_vertices s))
           (polygons (fst (snd (compressAndIntegrate h s V S buffers stamp))))"
proof -
  let ?P = "\<lambda>w :: ('p, 'c, nat \<rightharpoonup> nat) work. work_inv w \<and> grown_from stamp s (store w)"
  have init: "?P \<lparr>store = s, out = buffers, reindex = Map.empty, temp_reindex = [],
                   potential_new_vertices = [], potential_new_vertices_check = [],
                   temp_new_vertices = []\<rparr>"
    using assms by (simp add: work_inv_def grown_from_refl)
  have cls: "\<forall>i p w w'. ?P w \<longrightarrow>
                classify_vertex h stamp (length (all_vertices s)) i p w = Inr w' \<longrightarrow> ?P w'"
    using classify_vertex_work_inv classify_vertex_grown by blast
  have mid: "\<forall>w chk. ?P w \<longrightarrow>
                ?P (w\<lparr>potential_new_vertices_check := chk, out := (out w)\<lparr>remapping := reindex w\<rparr>\<rparr>)"
    by (simp add: work_inv_def)
  have com: "\<forall>i w. ?P w \<longrightarrow>
                (case commit_vertex h stamp V i w of Inl (e, w') \<Rightarrow> ?P w' | Inr w' \<Rightarrow> ?P w')"
  proof (intro allI impI)
    fix i and w :: "('p, 'c, nat \<rightharpoonup> nat) work"
    assume "?P w"
    with commit_vertex_work_inv[of w h stamp V i] commit_vertex_grown[of stamp s w h V i]
    show "case commit_vertex h stamp V i w of Inl (e, w') \<Rightarrow> ?P w' | Inr w' \<Rightarrow> ?P w'"
      by (auto split: sum.splits)
  qed
  have old: "?P w \<Longrightarrow> prefix (polygons s) (polygons (store w)) \<and>
         duplicates_are_fresh (length (polygons s)) (length (all_vertices s)) (polygons (store w))"
    for w :: "('p, 'c, nat \<rightharpoonup> nat) work"
    using appending_start[of w stamp s] by (simp add: appending_def)
  have fin: "?P w \<Longrightarrow> prefix (polygons s) (polygons (store (add_surfaces (length (all_vertices s)) S w))) \<and>
         duplicates_are_fresh (length (polygons s)) (length (all_vertices s))
           (polygons (store (add_surfaces (length (all_vertices s)) S w)))"
    for w :: "('p, 'c, nat \<rightharpoonup> nat) work"
    using add_surfaces_appending[OF assms appending_start, of w stamp S] by (simp add: appending_def)
  from compressAndIntegrate_cases[where P = ?P and S = S, OF init cls mid com]
  show ?thesis
    using old fin by (auto simp: duplicates_are_fresh_old)
qed

lemma compressAndIntegrate_blocks_appends:
  fixes s :: "('p, 'c) mesh_store" and mbs :: "('b, 'p, 'c) mesh_block list"
  assumes "store_inv s"
  shows "prefix (polygons s) (polygons (fst (snd (compressAndIntegrate_blocks h s mbs buffers stamp)))) \<and>
         duplicates_are_fresh (length (polygons s)) (length (all_vertices s))
           (polygons (fst (snd (compressAndIntegrate_blocks h s mbs buffers stamp))))"
proof -
  let ?P = "\<lambda>w :: ('p, 'c, 'b) block_work. work_inv w \<and> grown_from stamp s (store w)"
  have init: "?P \<lparr>store = s, out = buffers, reindex = Map.empty, temp_reindex = [],
              potential_new_vertices = [], potential_new_vertices_check = [],
              temp_new_vertices = [], input_surfaces = [], count = 0,
              count_to_block = Map.empty, all_parsed_points = [],
              converged_vertices = Map.empty\<rparr>"
    using assms by (simp add: work_inv_def grown_from_refl)
  have cls: "\<forall>blk i p w w'. ?P w \<longrightarrow>
                classify_block_vertex h stamp (length (all_vertices s)) blk i p w = Inr w' \<longrightarrow> ?P w'"
  proof (intro allI impI)
    fix blk i p and w w' :: "('p, 'c, 'b) block_work"
    assume "?P w" and "classify_block_vertex h stamp (length (all_vertices s)) blk i p w = Inr w'"
    then show "?P w'"
      using classify_block_vertex_work_inv[of w h stamp _ blk i p w']
        classify_block_vertex_grown[of stamp s w h _ blk i p w'] by blast
  qed
  have clo: "\<forall>i w w'. ?P w \<longrightarrow> close_surface (length (all_vertices s)) i w = Inr w' \<longrightarrow>
                ?P (w'\<lparr>count := Suc (count w')\<rparr>)"
    using close_surface_frame by (fastforce simp: work_inv_def)
  have key: "\<forall>w blk. ?P w \<longrightarrow>
                ?P (w\<lparr>out := (out w)\<lparr>remapping := map_insert (remapping (out w)) blk Map.empty\<rparr>\<rparr>)"
    by (simp add: work_inv_def)
  have com: "\<forall>i w. ?P w \<longrightarrow>
                (case commit_block_vertex h stamp i w of Inl (e, w') \<Rightarrow> ?P w' | Inr w' \<Rightarrow> ?P w')"
  proof (intro allI impI)
    fix i and w :: "('p, 'c, 'b) block_work"
    assume "?P w"
    with commit_block_vertex_work_inv[of w h stamp i] commit_block_vertex_grown[of stamp s w h i]
    show "case commit_block_vertex h stamp i w of Inl (e, w') \<Rightarrow> ?P w' | Inr w' \<Rightarrow> ?P w'"
      by (auto split: sum.splits)
  qed
  have old: "?P w \<Longrightarrow> prefix (polygons s) (polygons (store w)) \<and>
         duplicates_are_fresh (length (polygons s)) (length (all_vertices s)) (polygons (store w))"
    for w :: "('p, 'c, 'b) block_work"
    using appending_start[of w stamp s] by (simp add: appending_def)
  have fin: "?P w \<Longrightarrow> prefix (polygons s) (polygons (store (add_surfaces (length (all_vertices s)) S w))) \<and>
         duplicates_are_fresh (length (polygons s)) (length (all_vertices s))
           (polygons (store (add_surfaces (length (all_vertices s)) S w)))"
    for w :: "('p, 'c, 'b) block_work" and S
    using add_surfaces_appending[OF assms appending_start, of w stamp S] by (simp add: appending_def)
  from compressAndIntegrate_blocks_cases[where P = ?P and mbs = mbs, OF init cls clo key com]
  show ?thesis
    using old fin by auto
qed

lemma prune_polygons:
  assumes "snd (pruneStoredMesh h s t) = Inr s'"
  shows "polygons s' = polygons s \<and> all_vertices s' = all_vertices s"
  using assms
  by (auto simp: pruneStoredMesh_def split: if_splits sum.splits)

text \<open>
  Claim C3, as the code has it. In every store a compressor can be in, either variant of
  \<^verbatim>\<open>compressAndIntegrate\<close> only appends to \<^verbatim>\<open>polygons_\<close>, and a triangle it appends has the
  vertex set of an earlier stored triangle only if that one was appended by the same
  call and the set holds a vertex committed by the call; \<^verbatim>\<open>pruneStoredMesh\<close> leaves
  \<^verbatim>\<open>polygons_\<close> as it is. So a triangle made of vertices known before the call never
  repeats a stored one, and triangles that name a new vertex are not compared at all.
\<close>

theorem appended_duplicates_are_fresh:
  assumes "reachable h s"
  shows "prefix (polygons s) (polygons (fst (snd (compressAndIntegrate h s V S buffers stamp)))) \<and>
         duplicates_are_fresh (length (polygons s)) (length (all_vertices s))
           (polygons (fst (snd (compressAndIntegrate h s V S buffers stamp)))) \<and>
         prefix (polygons s)
           (polygons (fst (snd (compressAndIntegrate_blocks h s mbs block_buffers stamp)))) \<and>
         duplicates_are_fresh (length (polygons s)) (length (all_vertices s))
           (polygons (fst (snd (compressAndIntegrate_blocks h s mbs block_buffers stamp)))) \<and>
         (snd (pruneStoredMesh h s t) = Inr s' \<longrightarrow> polygons s' = polygons s)"
  using compressAndIntegrate_appends[OF reachable_store_inv[OF assms]]
    compressAndIntegrate_blocks_appends[OF reachable_store_inv[OF assms]]
    prune_polygons
  by blast

theorem appended_duplicates_are_fresh_witness:
  "reachable (grid_hooks cell3) orphan_store \<and>
   polygons (fst (snd (compressAndIntegrate (grid_hooks cell3) orphan_store triangle_batch
         [[0, 1, 2], [2, 1, 0]] empty_buffers 2))) = [[0, 1, 2]] \<and>
   duplicates_are_fresh (length (polygons orphan_store)) (length (all_vertices orphan_store))
     (polygons (fst (snd (compressAndIntegrate (grid_hooks cell3) orphan_store triangle_batch
         [[0, 1, 2], [2, 1, 0]] empty_buffers 2)))) \<and>
   duplicates_are_fresh (length (polygons orphan_store)) (length (all_vertices orphan_store))
     (polygons (fst (snd (compressAndIntegrate_blocks (grid_hooks cell3) orphan_store
         revisit_blocks empty_buffers 2)))) \<and>
   map_option polygons
     (case snd (pruneStoredMesh (grid_hooks cell3) orphan_store 0) of
        Inl e \<Rightarrow> None | Inr s' \<Rightarrow> Some s') = Some (polygons orphan_store)"
proof -
  have a: "polygons (fst (snd (compressAndIntegrate (grid_hooks cell3) orphan_store triangle_batch
         [[0, 1, 2], [2, 1, 0]] empty_buffers 2))) = [[0, 1, 2]]"
    by (simp add: flat_eval triangle_batch_def orphan_store_def insert_commute)
  have p: "map_option polygons
     (case snd (pruneStoredMesh (grid_hooks cell3) orphan_store 0) of
        Inl e \<Rightarrow> None | Inr s' \<Rightarrow> Some s') = Some (polygons orphan_store)"
    by (simp add: prune_eval orphan_store_def)
  from appended_duplicates_are_fresh[OF orphan_store_reachable,
      where V = triangle_batch and S = "[[0, 1, 2], [2, 1, 0]]" and stamp = 2
        and buffers = empty_buffers and mbs = revisit_blocks and block_buffers = empty_buffers]
    orphan_store_reachable a p
  show ?thesis by simp
qed

text \<open>
  Claim C3 as stated fails: a batch that lists the face \<open>(0, 1, 2)\<close> twice over three new
  vertices stores the triangle twice.
\<close>

theorem duplicate_surfaces_stored:
  "polygons (fst (snd (compressAndIntegrate (grid_hooks cell3) empty_store triangle_batch
         [[0, 1, 2], [0, 1, 2]] empty_buffers 1))) = [[0, 1, 2], [0, 1, 2]]"
  by (simp add: flat_eval triangle_batch_def)

end
